theory Spec2Isabelle
  imports Complex_Main
begin

section \<open>Values and errors\<close>

text \<open>
  The program is \<open>didtool/scorecard.py\<close>: the class \<open>ScoreCardTransformer\<close> with its
  methods \<open>fit\<close>, \<open>transform\<close>, \<open>__calc_bins\<close>, \<open>__adjust_odds\<close> and
  \<open>__calc_mapping_df\<close>. Finite floating-point values are modelled as exact reals; the
  exceptional values that pandas produces (a missing group, a division by zero) are
  explicit: a count column holds \<open>int option\<close> (\<open>None\<close> is the NaN of a bin without
  samples) and the odds column holds a \<open>num\<close>.

  What the model takes from numpy and pandas:
  \<^item> arithmetic on finite values is exact, so rounding, overflow and underflow of
    doubles are outside the model, and \<open>np.arange(0, 1, step)\<close> has \<open>n_bins\<close> elements;
  \<^item> an assignment through a column (\<open>df['adjusted_odds'][i] = v\<close>) writes into the
    frame, as it does in pandas without copy-on-write;
  \<^item> assigning a grouped series to a column aligns it on the frame's index
    \<open>range(n_bins)\<close>: a missing key leaves NaN, a key that is no row is dropped;
  \<^item> \<open>Series.argmax\<close> on a column of the frame is the first position of the maximum
    (position and label agree there); \<open>Series.argmin\<close> on a selection of rows is a
    parameter of the model, see \<open>argmin_result\<close>.
\<close>

datatype num = Num real | PInf | NInf | NaN

datatype error =
    ZeroDivisionError
  | NotOneDim
  | RowSizeMismatch nat nat
  | TupleIndexError
  | FrameConstructionError
  | EmptySequence
  | MathDomainError
  | NanToInteger
  | NotFitted

text \<open>
  \<open>ZeroDivisionError\<close>: \<open>1.0 / n_bins\<close> or \<open>x / standard_odds\<close> with a zero divisor.
  \<open>NotOneDim\<close>: the ValueError "x and y should be 1-dim array." of \<open>fit\<close>.
  \<open>RowSizeMismatch\<close>: the ValueError "Row size of x and y do not match." of \<open>fit\<close>.
  \<open>TupleIndexError\<close>: the IndexError of \<open>shape[0]\<close> on an array without dimensions.
  \<open>FrameConstructionError\<close>: \<open>pd.DataFrame\<close> refusing a column that is not 1-d.
  \<open>EmptySequence\<close>: the ValueError of the builtins \<open>min\<close> and \<open>max\<close> on an empty sequence.
  \<open>MathDomainError\<close>: the ValueError of \<open>math.log2\<close> on an argument that is not positive.
  \<open>NanToInteger\<close>: the ValueError of \<open>int(round(nan))\<close>.
  \<open>NotFitted\<close>: the TypeError of subscripting \<open>mapping_df\<close> while it is still \<open>None\<close>.
\<close>

text \<open>Python's \<open>int(v)\<close> on a float truncates toward zero.\<close>

definition py_int :: "real \<Rightarrow> int" where
  "py_int v = (if 0 \<le> v then \<lfloor>v\<rfloor> else \<lceil>v\<rceil>)"

text \<open>Python's \<open>round(v)\<close> on a float rounds to the nearest integer, a tie to the even one.\<close>

definition py_round :: "real \<Rightarrow> int" where
  "py_round v =
     (let f = \<lfloor>v\<rfloor>; d = v - of_int f
      in if d < 1 / 2 then f else if 1 / 2 < d then f + 1
         else if even f then f else f + 1)"

text \<open>An error raised while a function is applied along a column: the first one wins.\<close>

fun collect :: "(error + 'a) list \<Rightarrow> error + 'a list" where
  "collect [] = Inr []"
| "collect (Inl e # rs) = Inl e"
| "collect (Inr v # rs) = (case collect rs of Inl e \<Rightarrow> Inl e | Inr vs \<Rightarrow> Inr (v # vs))"

section \<open>The data model\<close>

text \<open>A numpy array: its shape and its elements in row-major order.\<close>

record 'a ndarray =
  shape :: "nat list"
  data :: "'a list"

definition ndim :: "'a ndarray \<Rightarrow> nat" where
  "ndim arr = length (shape arr)"

text \<open>One row of \<open>binning_df\<close> (the columns of the frame, plus \<open>adjusted_odds\<close>).\<close>

record bin =
  prob_l :: real
  prob_r :: real
  mean_prob :: real
  score :: int
  bad_hits :: "int option"
  good_hits :: "int option"
  hits :: "int option"
  odds :: num
  adjusted_odds :: real

text \<open>One row of \<open>mapping_df\<close>.\<close>

record segment =
  slope :: real
  intercept :: real

text \<open>The object: the constructor's parameters and the two frames, \<open>None\<close> before \<open>fit\<close>.\<close>

record scorecard =
  n_bins :: nat
  standard_score :: real
  standard_odds :: real
  pdo :: real
  bad_flag :: bool
  binning_df :: "bin list option"
  mapping_df :: "segment list option"

text \<open>\<open>self._step = 1.0 / self._n_bins\<close>, set once by the constructor.\<close>

definition step :: "scorecard \<Rightarrow> real" where
  "step self = 1 / real (n_bins self)"

definition init :: "nat \<Rightarrow> real \<Rightarrow> real \<Rightarrow> real \<Rightarrow> bool \<Rightarrow> error + scorecard" where
  "init n ss so p bf =
     (if n = 0 then Inl ZeroDivisionError
      else Inr \<lparr>n_bins = n, standard_score = ss, standard_odds = so, pdo = p,
                bad_flag = bf, binning_df = None, mapping_df = None\<rparr>)"

text \<open>
  \<open>Series.argmin\<close> on the selection \<open>df[df['adjusted_odds'] != 0]\<close>: pandas before 1.0
  returns the index label of the row (\<open>AsLabel\<close>), pandas from 1.0 on its position
  inside the selection (\<open>AsPosition\<close>). The repository pins no version, so the model
  takes the reading as a parameter.
\<close>

datatype argmin_result = AsLabel | AsPosition

section \<open>Binning\<close>

text \<open>\<open>score_df['label'].groupby(score_df['bin'])\<close> with \<open>count()\<close> and \<open>sum()\<close>, read at key \<open>b\<close>.\<close>

definition group :: "int list \<Rightarrow> int list \<Rightarrow> int \<Rightarrow> int list" where
  "group bins labels b = map snd (filter (\<lambda>r. fst r = b) (zip bins labels))"

definition group_count :: "int list \<Rightarrow> int list \<Rightarrow> int \<Rightarrow> int option" where
  "group_count bins labels b =
     (let g = group bins labels b in if g = [] then None else Some (int (length g)))"

definition group_sum :: "int list \<Rightarrow> int list \<Rightarrow> int \<Rightarrow> int option" where
  "group_sum bins labels b =
     (let g = group bins labels b in if g = [] then None else Some (sum_list g))"

fun col_sub :: "int option \<Rightarrow> int option \<Rightarrow> int option" where
  "col_sub (Some a) (Some b) = Some (a - b)"
| "col_sub _ _ = None"

fun col_div :: "int option \<Rightarrow> int option \<Rightarrow> num" where
  "col_div (Some g) (Some b) =
     (if b \<noteq> 0 then Num (real_of_int g / real_of_int b)
      else if 0 < g then PInf else if g < 0 then NInf else NaN)"
| "col_div _ _ = NaN"

text \<open>The bin of each sample: \<open>int(x / self._step)\<close> on the (flipped) probability.\<close>

definition sample_bins :: "scorecard \<Rightarrow> real list \<Rightarrow> int list" where
  "sample_bins self x =
     map (\<lambda>p. py_int (p / step self)) (if bad_flag self then map (\<lambda>p. 1 - p) x else x)"

text \<open>
  Lines 108 to 132 of \<open>__calc_bins\<close>: the frame indexed by \<open>range(n_bins)\<close> with its
  columns \<open>hits\<close>, \<open>bad_hits\<close>, \<open>good_hits\<close> and \<open>odds\<close>. A group whose key is not in
  \<open>range(n_bins)\<close> has no row to go to and is dropped by the column assignment. The
  columns written later hold 0 until then.
\<close>

definition count_row :: "scorecard \<Rightarrow> int list \<Rightarrow> int list \<Rightarrow> nat \<Rightarrow> bin" where
  "count_row self bins labels i =
     (let h = group_count bins labels (int i);
          s = group_sum bins labels (int i);
          bad = (if bad_flag self then s else col_sub h s);
          good = (if bad_flag self then col_sub h s else s)
      in \<lparr>prob_l = 0, prob_r = 0, mean_prob = 0, score = 0, bad_hits = bad,
          good_hits = good, hits = h, odds = col_div good bad, adjusted_odds = 0\<rparr>)"

definition count_bins :: "scorecard \<Rightarrow> real list \<Rightarrow> int list \<Rightarrow> bin list" where
  "count_bins self x y = map (count_row self (sample_bins self x) y) [0..<n_bins self]"

section \<open>Repairing the odds\<close>

text \<open>\<open>np.isinf\<close> entries and NaN entries of the odds become 0 (lines 160 to 162).\<close>

definition fill0 :: "num \<Rightarrow> real" where
  "fill0 v = (case v of Num r \<Rightarrow> r | _ \<Rightarrow> 0)"

text \<open>The position of the first occurrence of a value (\<open>argmax\<close>, \<open>argmin\<close> take the first).\<close>

fun first_index :: "real \<Rightarrow> real list \<Rightarrow> nat" where
  "first_index v [] = 0"
| "first_index v (a # as) = (if a = v then 0 else Suc (first_index v as))"

definition argmax :: "real list \<Rightarrow> nat" where
  "argmax col = first_index (Max (set col)) col"

definition argmin :: "real list \<Rightarrow> nat" where
  "argmin col = first_index (Min (set col)) col"

definition set_adjusted :: "bin list \<Rightarrow> nat \<Rightarrow> real \<Rightarrow> bin list" where
  "set_adjusted df i v = df[i := (df ! i)\<lparr>adjusted_odds := v\<rparr>]"

text \<open>
  The body of the loop of lines 170 to 175, on the state
  \<open>(is_zero_good, min_odds, df)\<close>.
\<close>

definition low_step :: "nat \<Rightarrow> bool \<times> real \<times> bin list \<Rightarrow> bool \<times> real \<times> bin list" where
  "low_step i s =
     (case s of (is_zero_good, min_odds, df) \<Rightarrow>
        let is_zero_good = (is_zero_good \<or> good_hits (df ! i) = Some 0)
        in if is_zero_good then (is_zero_good, min_odds / 2, set_adjusted df i (min_odds / 2))
           else (is_zero_good, min_odds, df))"

text \<open>The body of the loop of lines 179 to 184, on \<open>(is_zero_bad, max_odds, df)\<close>.\<close>

definition high_step :: "nat \<Rightarrow> bool \<times> real \<times> bin list \<Rightarrow> bool \<times> real \<times> bin list" where
  "high_step i s =
     (case s of (is_zero_bad, max_odds, df) \<Rightarrow>
        let is_zero_bad = (is_zero_bad \<or> bad_hits (df ! i) = Some 0)
        in if is_zero_bad then (is_zero_bad, max_odds * 2, set_adjusted df i (max_odds * 2))
           else (is_zero_bad, max_odds, df))"

text \<open>The body of the loop of lines 187 to 193.\<close>

definition mid_step :: "nat \<Rightarrow> bin list \<Rightarrow> bin list" where
  "mid_step i df =
     (if adjusted_odds (df ! i) = 0 then
        (if adjusted_odds (df ! (i + 1)) \<noteq> 0
         then set_adjusted df i ((adjusted_odds (df ! (i - 1)) + adjusted_odds (df ! (i + 1))) / 2)
         else set_adjusted df i (adjusted_odds (df ! (i - 1))))
      else df)"

definition min_odds_index :: "argmin_result \<Rightarrow> real list \<Rightarrow> nat" where
  "min_odds_index am col =
     (case am of
        AsLabel \<Rightarrow> first_index (Min (set (filter (\<lambda>v. v \<noteq> 0) col))) col
      | AsPosition \<Rightarrow> argmin (filter (\<lambda>v. v \<noteq> 0) col))"

text \<open>
  \<open>__adjust_odds\<close>. \<open>range(min_odds_index - 1, -1, -1)\<close> is \<open>rev [0..<min_odds_index]\<close>,
  \<open>range(a, b)\<close> is \<open>[a..<b]\<close>. The frame has \<open>n_bins\<close> rows (its only caller builds it
  on \<open>range(n_bins)\<close>), so every index the loops read is a row of the frame.
\<close>

definition adjust_odds :: "argmin_result \<Rightarrow> scorecard \<Rightarrow> bin list \<Rightarrow> error + bin list" where
  "adjust_odds am self df0 =
     (let df = map (\<lambda>b. b\<lparr>adjusted_odds := fill0 (odds b)\<rparr>) df0;
          col = map adjusted_odds df
      in if col = [] then Inl EmptySequence
         else if filter (\<lambda>v. v \<noteq> 0) col = [] then Inl EmptySequence
         else
           let max_odds = Max (set col);
               max_odds_index = argmax col;
               min_odds = Min (set (filter (\<lambda>v. v \<noteq> 0) col));
               min_odds_index = min_odds_index am col;
               df = snd (snd (fold low_step (rev [0..<min_odds_index]) (False, min_odds, df)));
               df = snd (snd (fold high_step [max_odds_index + 1..<n_bins self]
                                (False, max_odds, df)));
               df = fold mid_step [min_odds_index + 1..<max_odds_index - 1] df
           in Inr df)"

section \<open>Scores and the frame of bins\<close>

text \<open>The function applied to \<open>adjusted_odds\<close> at lines 146 to 148.\<close>

definition score_of :: "scorecard \<Rightarrow> real \<Rightarrow> error + int" where
  "score_of self v =
     (if standard_odds self = 0 then Inl ZeroDivisionError
      else if v / standard_odds self \<le> 0 then Inl MathDomainError
      else Inr (py_int (standard_score self + pdo self * log 2 (v / standard_odds self))))"

text \<open>\<open>prob_l = np.arange(0, 1, step)\<close> and \<open>prob_r = prob_l + step\<close> on the rows in order.\<close>

definition set_probs :: "scorecard \<Rightarrow> bin list \<Rightarrow> bin list" where
  "set_probs self df =
     map (\<lambda>(i, b). b\<lparr>prob_l := real i * step self, prob_r := real i * step self + step self\<rparr>)
       (enumerate 0 df)"

text \<open>\<open>sort_values(by='prob_l', ascending=False)\<close>.\<close>

definition sort_desc :: "bin list \<Rightarrow> bin list" where
  "sort_desc df = sort_key (\<lambda>b. - prob_l b) df"

text \<open>Lines 135 to 142: the interval bounds, and the re-sorting when \<open>bad_flag\<close> is set.\<close>

definition order_bins :: "scorecard \<Rightarrow> bin list \<Rightarrow> bin list" where
  "order_bins self df =
     (let df = set_probs self df
      in if bad_flag self then set_probs self (sort_desc df) else df)"

text \<open>Lines 146 to 150: the score of every row, then \<open>mean_prob\<close>.\<close>

definition score_bins :: "scorecard \<Rightarrow> bin list \<Rightarrow> error + bin list" where
  "score_bins self df =
     (case collect (map (\<lambda>b. score_of self (adjusted_odds b)) df) of
        Inl e \<Rightarrow> Inl e
      | Inr scores \<Rightarrow>
          Inr (map (\<lambda>(b, s). b\<lparr>score := s, mean_prob := (prob_l b + prob_r b) / 2\<rparr>)
                 (zip df scores)))"

text \<open>
  \<open>__calc_bins\<close>. \<open>pd.DataFrame({'prob': x, 'label': y})\<close> takes 1-d columns of one
  length and raises otherwise.
\<close>

definition calc_bins ::
  "argmin_result \<Rightarrow> scorecard \<Rightarrow> real ndarray \<Rightarrow> int ndarray \<Rightarrow> error + bin list" where
  "calc_bins am self x y =
     (if ndim x \<noteq> 1 \<or> ndim y \<noteq> 1 \<or> length (data x) \<noteq> length (data y)
      then Inl FrameConstructionError
      else case adjust_odds am self (count_bins self (data x) (data y)) of
             Inl e \<Rightarrow> Inl e
           | Inr df \<Rightarrow> score_bins self (order_bins self df))"

section \<open>The mapping table\<close>

text \<open>
  \<open>__calc_mapping_df\<close>. The anchor frame has the rows \<open>0..n_bins\<close>: \<open>prob_l\<close> is 0
  followed by the bins' \<open>mean_prob\<close>, \<open>prob_r\<close> is the bins' \<open>mean_prob\<close> followed by
  1, and the scores likewise with the extrapolated end scores.
\<close>

definition calc_mapping_df :: "scorecard \<Rightarrow> bin list \<Rightarrow> segment list" where
  "calc_mapping_df self bdf =
     (let mp = map mean_prob bdf;
          sc = map (\<lambda>b. real_of_int (score b)) bdf;
          hi = real_of_int (Max (set (map score bdf)));
          lo = real_of_int (Min (set (map score bdf)));
          a_prob_l = 0 # mp;
          a_prob_r = mp @ [1];
          a_score_l = (if bad_flag self then hi + pdo self else lo - pdo self) # sc;
          a_score_r = sc @ [if bad_flag self then lo - pdo self / 2 else hi + pdo self / 2]
      in map (\<lambda>(pl, sl, pr, sr).
                \<lparr>slope = (sr - sl) / (pr - pl), intercept = (pr * sl - pl * sr) / (pr - pl)\<rparr>)
           (zip a_prob_l (zip a_score_l (zip a_prob_r a_score_r))))"

section \<open>fit and transform\<close>

text \<open>
  \<open>__is_one_dim_array\<close>: the inputs of the model are numpy arrays, so its
  \<open>isinstance\<close> test holds and the test on \<open>ndim\<close> remains.
\<close>

definition is_one_dim_array :: "'a ndarray \<Rightarrow> bool" where
  "is_one_dim_array arr = (ndim arr = 1)"

text \<open>
  \<open>fit\<close>: the guard of line 65, \<open>shape[0]\<close> of both arrays (an IndexError on an
  array without dimensions), the guard of line 68, then the two frames.
\<close>

definition fit ::
  "argmin_result \<Rightarrow> scorecard \<Rightarrow> real ndarray \<Rightarrow> int ndarray \<Rightarrow> error + scorecard" where
  "fit am self x y =
     (if \<not> is_one_dim_array x \<and> \<not> is_one_dim_array y then Inl NotOneDim
      else if shape x = [] \<or> shape y = [] then Inl TupleIndexError
      else if hd (shape x) \<noteq> hd (shape y)
        then Inl (RowSizeMismatch (hd (shape x)) (hd (shape y)))
      else case calc_bins am self x y of
             Inl e \<Rightarrow> Inl e
           | Inr bdf \<Rightarrow>
               Inr (self\<lparr>binning_df := Some bdf,
                         mapping_df := Some (calc_mapping_df self bdf)\<rparr>))"





section \<open>Notions used by the properties\<close>

text \<open>The constructor's defaults, for \<open>n\<close> bins and a given orientation.\<close>

definition default_card :: "nat \<Rightarrow> bool \<Rightarrow> scorecard" where
  "default_card n bf =
     \<lparr>n_bins = n, standard_score = 500, standard_odds = 1 / 100, pdo = 20,
      bad_flag = bf, binning_df = None, mapping_df = None\<rparr>"

text \<open>Raw odds that \<open>__adjust_odds\<close> starts from as 0: zero, infinite or NaN.\<close>

definition degenerate :: "num \<Rightarrow> bool" where
  "degenerate v = (fill0 v = 0)"



text \<open>
  A worked example: two bins, label 1 the good outcome, two samples in the lower bin
  (one good) and three in the upper bin (two good).
\<close>

definition example_x :: "real ndarray" where
  "example_x = \<lparr>shape = [5], data = [1 / 4, 1 / 4, 3 / 4, 3 / 4, 3 / 4]\<rparr>"

definition example_y :: "int ndarray" where
  "example_y = \<lparr>shape = [5], data = [0, 1, 0, 1, 1]\<rparr>"

definition example_bins :: "bin list" where
  "example_bins =
     [\<lparr>prob_l = 0, prob_r = 1 / 2, mean_prob = 1 / 4, score = 632, bad_hits = Some 1,
       good_hits = Some 1, hits = Some 2, odds = Num 1, adjusted_odds = 1\<rparr>,
      \<lparr>prob_l = 1 / 2, prob_r = 1, mean_prob = 3 / 4, score = 652, bad_hits = Some 1,
       good_hits = Some 2, hits = Some 3, odds = Num 2, adjusted_odds = 2\<rparr>]"

definition example_model :: scorecard where
  "example_model =
     (default_card 2 False)
       \<lparr>binning_df := Some example_bins,
        mapping_df := Some [\<lparr>slope = 80, intercept = 612\<rparr>, \<lparr>slope = 40, intercept = 622\<rparr>,
                            \<lparr>slope = 40, intercept = 622\<rparr>]\<rparr>"

text \<open>
  The same counts with label 1 the bad outcome: three samples of low probability (one
  bad) and two of high probability (one bad).
\<close>

definition flipped_x :: "real ndarray" where
  "flipped_x = \<lparr>shape = [5], data = [1 / 4, 1 / 4, 1 / 4, 3 / 4, 3 / 4]\<rparr>"

definition flipped_y :: "int ndarray" where
  "flipped_y = \<lparr>shape = [5], data = [0, 0, 1, 0, 1]\<rparr>"

definition flipped_bins :: "bin list" where
  "flipped_bins =
     [\<lparr>prob_l = 0, prob_r = 1 / 2, mean_prob = 1 / 4, score = 652, bad_hits = Some 1,
       good_hits = Some 2, hits = Some 3, odds = Num 2, adjusted_odds = 2\<rparr>,
      \<lparr>prob_l = 1 / 2, prob_r = 1, mean_prob = 3 / 4, score = 632, bad_hits = Some 1,
       good_hits = Some 1, hits = Some 2, odds = Num 1, adjusted_odds = 1\<rparr>]"

definition flipped_model :: scorecard where
  "flipped_model =
     (default_card 2 True)
       \<lparr>binning_df := Some flipped_bins,
        mapping_df := Some [\<lparr>slope = - 80, intercept = 672\<rparr>, \<lparr>slope = - 40, intercept = 662\<rparr>,
                            \<lparr>slope = - 40, intercept = 662\<rparr>]\<rparr>"



text \<open>
  The column \<open>adjusted_odds\<close> as lines 160 to 162 leave it, and the two indices that
  \<open>__adjust_odds\<close> computes from it.
\<close>

definition raw_col :: "bin list \<Rightarrow> real list" where
  "raw_col df = map (\<lambda>b. fill0 (odds b)) df"

definition low_index :: "argmin_result \<Rightarrow> bin list \<Rightarrow> nat" where
  "low_index am df = min_odds_index am (raw_col df)"

definition high_index :: "bin list \<Rightarrow> nat" where
  "high_index df = argmax (raw_col df)"

text \<open>
  The bins that the three loops reach: below \<open>min_odds_index\<close> from the first bin
  without good hits downward, above \<open>max_odds_index\<close> from the first bin without bad
  hits upward, and the range \<open>range(min_odds_index + 1, max_odds_index - 1)\<close>.
\<close>

definition low_repaired :: "argmin_result \<Rightarrow> bin list \<Rightarrow> nat \<Rightarrow> bool" where
  "low_repaired am df i =
     (i < low_index am df \<and> (\<exists>j\<in>{i..<low_index am df}. good_hits (df ! j) = Some 0))"

definition high_repaired :: "bin list \<Rightarrow> nat \<Rightarrow> bool" where
  "high_repaired df i =
     (high_index df < i \<and> (\<exists>j\<in>{high_index df<..i}. bad_hits (df ! j) = Some 0))"

definition mid_range :: "argmin_result \<Rightarrow> bin list \<Rightarrow> nat \<Rightarrow> bool" where
  "mid_range am df i = (low_index am df < i \<and> i + 1 < high_index df)"

text \<open>
  The frame inside \<open>__adjust_odds\<close> after line 162, after the loop of lines 170 to
  175, and after the loop of lines 179 to 184.
\<close>

definition after_fill :: "bin list \<Rightarrow> bin list" where
  "after_fill df = map (\<lambda>b. b\<lparr>adjusted_odds := fill0 (odds b)\<rparr>) df"

definition after_low :: "argmin_result \<Rightarrow> bin list \<Rightarrow> bin list" where
  "after_low am df =
     snd (snd (fold low_step (rev [0..<low_index am df])
                 (False, Min (set (filter (\<lambda>v. v \<noteq> 0) (raw_col df))), after_fill df)))"

definition after_high :: "argmin_result \<Rightarrow> scorecard \<Rightarrow> bin list \<Rightarrow> bin list" where
  "after_high am self df =
     snd (snd (fold high_step [high_index df + 1..<n_bins self]
                 (False, Max (set (raw_col df)), after_low am df)))"

text \<open>
  The row that lines 108 to 132 build for a bin with \<open>g\<close> good and \<open>b\<close> bad samples,
  and a frame with a given column \<open>adjusted_odds\<close>.
\<close>

definition counted :: "int \<Rightarrow> int \<Rightarrow> bin" where
  "counted g b =
     \<lparr>prob_l = 0, prob_r = 0, mean_prob = 0, score = 0, bad_hits = Some b,
      good_hits = Some g, hits = Some (g + b), odds = col_div (Some g) (Some b),
      adjusted_odds = 0\<rparr>"

definition with_adjusted :: "bin list \<Rightarrow> real list \<Rightarrow> bin list" where
  "with_adjusted df vs = map (\<lambda>(b, v). b\<lparr>adjusted_odds := v\<rparr>) (zip df vs)"

text \<open>
  Six bins on which all three loops act: no good hits in bin 0, the minimum nonzero
  odds in bin 1, zero odds in bin 2, the maximum in bin 4, no bad hits in bin 5.
\<close>

definition repair_frame :: "bin list" where
  "repair_frame = [counted 0 2, counted 1 1, counted 0 1, counted 2 1, counted 4 1, counted 3 0]"

text \<open>
  Three bins, label 1 the good outcome: odds 1 and 2 in the first two bins, and a last
  bin with one bad sample and no good one.
\<close>

definition stray_x :: "real ndarray" where
  "stray_x = \<lparr>shape = [6], data = [1 / 6, 1 / 6, 1 / 2, 1 / 2, 1 / 2, 5 / 6]\<rparr>"

definition stray_y :: "int ndarray" where
  "stray_y = \<lparr>shape = [6], data = [0, 1, 1, 1, 0, 0]\<rparr>"

text \<open>Three bins with odds 1 and 2 at the ends and a middle bin without good samples.\<close>

definition gap_x :: "real ndarray" where
  "gap_x = \<lparr>shape = [6], data = [1 / 6, 1 / 6, 1 / 2, 5 / 6, 5 / 6, 5 / 6]\<rparr>"

definition gap_y :: "int ndarray" where
  "gap_y = \<lparr>shape = [6], data = [0, 1, 0, 1, 1, 0]\<rparr>"

section \<open>The shape check of fit\<close>

lemma degenerate_iff: "degenerate v \<longleftrightarrow> v = Num 0 \<or> v = PInf \<or> v = NInf \<or> v = NaN"
  by (cases v) (auto simp: degenerate_def fill0_def)

text \<open>
  Claim C3. \<open>fit\<close> is to raise its shape error as soon as one of \<open>x\<close>, \<open>y\<close> is not
  one-dimensional. The guard of line 65 joins the two tests with \<open>and\<close>: with a
  two-dimensional \<open>x\<close> of two rows and a one-dimensional \<open>y\<close> of two elements neither
  guard of \<open>fit\<close> fires, and the call fails only inside \<open>__calc_bins\<close>, where the
  frame is built; with an \<open>x\<close> without dimensions it fails at \<open>x.shape[0]\<close>. Only
  when both inputs are not one-dimensional does \<open>fit\<close> raise its own error.
\<close>

theorem fit_guard_one_bad_input:
  "fit am self \<lparr>shape = [2, 1], data = [1 / 4, 3 / 4]\<rparr> \<lparr>shape = [2], data = [0, 1]\<rparr>
     = Inl FrameConstructionError
   \<and> fit am self \<lparr>shape = [], data = [1 / 4]\<rparr> \<lparr>shape = [1], data = [1]\<rparr>
     = Inl TupleIndexError
   \<and> fit am self \<lparr>shape = [2, 1], data = [1 / 4, 3 / 4]\<rparr> \<lparr>shape = [1, 2], data = [0, 1]\<rparr>
     = Inl NotOneDim"
  by (simp add: fit_def is_one_dim_array_def ndim_def calc_bins_def)

section \<open>Degenerate input\<close>




lemma length_set_adjusted [simp]: "length (set_adjusted df i v) = length df"
  by (simp add: set_adjusted_def)

lemma low_step_length: "length (snd (snd (low_step i s))) = length (snd (snd s))"
  by (cases s) (simp add: low_step_def Let_def)

lemma high_step_length: "length (snd (snd (high_step i s))) = length (snd (snd s))"
  by (cases s) (simp add: high_step_def Let_def)

lemma mid_step_length [simp]: "length (mid_step i df) = length df"
  by (simp add: mid_step_def)

lemma fold_low_length: "length (snd (snd (fold low_step js s))) = length (snd (snd s))"
  by (induction js arbitrary: s) (simp_all add: low_step_length)

lemma fold_high_length: "length (snd (snd (fold high_step js s))) = length (snd (snd s))"
  by (induction js arbitrary: s) (simp_all add: high_step_length)

lemma fold_mid_length: "length (fold mid_step js df) = length df"
  by (induction js arbitrary: df) simp_all

text \<open>What \<open>__adjust_odds\<close> returns when it returns: the three loops, one after the other.\<close>

lemma adjust_odds_Inr:
  assumes "adjust_odds am self df0 = Inr df'"
  defines "df \<equiv> map (\<lambda>b. b\<lparr>adjusted_odds := fill0 (odds b)\<rparr>) df0"
  defines "col \<equiv> map (\<lambda>b. fill0 (odds b)) df0"
  shows "col \<noteq> []" and "filter (\<lambda>v. v \<noteq> 0) col \<noteq> []"
    and "df' = fold mid_step [min_odds_index am col + 1..<argmax col - 1]
           (snd (snd (fold high_step [argmax col + 1..<n_bins self]
              (False, Max (set col),
               snd (snd (fold low_step (rev [0..<min_odds_index am col])
                  (False, Min (set (filter (\<lambda>v. v \<noteq> 0) col)), df)))))))"
proof -
  have c: "map adjusted_odds (map (\<lambda>b. b\<lparr>adjusted_odds := fill0 (odds b)\<rparr>) df0) = col"
    by (simp add: col_def comp_def)
  show "col \<noteq> []" "filter (\<lambda>v. v \<noteq> 0) col \<noteq> []"
    using assms(1) unfolding adjust_odds_def Let_def c
    by (simp_all split: if_splits)
  show "df' = fold mid_step [min_odds_index am col + 1..<argmax col - 1]
           (snd (snd (fold high_step [argmax col + 1..<n_bins self]
              (False, Max (set col),
               snd (snd (fold low_step (rev [0..<min_odds_index am col])
                  (False, Min (set (filter (\<lambda>v. v \<noteq> 0) col)), df)))))))"
    using assms(1) unfolding adjust_odds_def Let_def c df_def
    by (simp split: if_splits)
qed

lemma adjust_odds_length:
  assumes "adjust_odds am self df = Inr df'"
  shows "length df' = length df"
  unfolding adjust_odds_Inr(3)[OF assms]
  by (simp add: fold_mid_length fold_high_length fold_low_length)

section \<open>Columns applied element by element\<close>

lemma collect_map_Inr: "collect rs = Inr vs \<longleftrightarrow> rs = map Inr vs"
proof (induction rs arbitrary: vs)
  case Nil
  then show ?case by auto
next
  case (Cons r rs)
  show ?case
  proof (cases r)
    case (Inl e)
    then show ?thesis by (cases vs) simp_all
  next
    case r: (Inr v)
    show ?thesis
    proof (cases "collect rs")
      case (Inl e)
      then have "\<And>ws. rs \<noteq> map Inr ws" using Cons.IH by simp
      then show ?thesis using r Inl by (cases vs) simp_all
    next
      case (Inr ws)
      then have "rs = map Inr ws" using Cons.IH by simp
      then show ?thesis using r Inr by (cases vs) auto
    qed
  qed
qed

lemma collect_length: "collect rs = Inr vs \<Longrightarrow> length vs = length rs"
  by (simp add: collect_map_Inr)


lemma collect_Inl:
  assumes "\<And>a. a \<in> set as \<Longrightarrow> f a = Inr (g a) \<or> f a = Inl e"
    and "\<exists>a\<in>set as. f a = Inl e"
  shows "collect (map f as) = Inl e"
  using assms
proof (induction as)
  case Nil
  then show ?case by simp
next
  case (Cons a as)
  show ?case
  proof (cases "f a")
    case (Inl e')
    then have "e' = e" using Cons.prems(1)[of a] by auto
    then show ?thesis using Inl by simp
  next
    case (Inr v)
    then have "\<exists>a\<in>set as. f a = Inl e" using Cons.prems(2) by auto
    then have "collect (map f as) = Inl e"
      using Cons.IH Cons.prems(1) by simp
    then show ?thesis using Inr by simp
  qed
qed

section \<open>The frames that fit builds\<close>

lemma length_set_probs [simp]: "length (set_probs self df) = length df"
  by (simp add: set_probs_def)

lemma length_order_bins [simp]: "length (order_bins self df) = length df"
  by (simp add: order_bins_def sort_desc_def Let_def)

lemma score_bins_Inr:
  assumes "score_bins self df = Inr bdf"
  obtains scores where "map (\<lambda>b. score_of self (adjusted_odds b)) df = map Inr scores"
    and "bdf = map (\<lambda>(b, s). b\<lparr>score := s, mean_prob := (prob_l b + prob_r b) / 2\<rparr>)
                 (zip df scores)"
  using assms unfolding score_bins_def
  by (auto split: sum.splits simp: collect_map_Inr)

lemma score_bins_length:
  assumes "score_bins self df = Inr bdf"
  shows "length bdf = length df"
proof -
  obtain scores where s: "map (\<lambda>b. score_of self (adjusted_odds b)) df = map Inr scores"
    and b: "bdf = map (\<lambda>(b, s). b\<lparr>score := s, mean_prob := (prob_l b + prob_r b) / 2\<rparr>)
                 (zip df scores)"
    using assms by (rule score_bins_Inr)
  have "length scores = length df" using s by (metis length_map)
  then show ?thesis using b by simp
qed

lemma length_count_bins [simp]: "length (count_bins self xs ys) = n_bins self"
  by (simp add: count_bins_def)

lemma calc_bins_Inr:
  assumes "calc_bins am self x y = Inr bdf"
  obtains df where "ndim x = 1" and "ndim y = 1" and "length (data x) = length (data y)"
    and "adjust_odds am self (count_bins self (data x) (data y)) = Inr df"
    and "score_bins self (order_bins self df) = Inr bdf"
  using assms unfolding calc_bins_def
  by (auto split: if_splits sum.splits)

lemma calc_bins_length:
  assumes "calc_bins am self x y = Inr bdf"
  shows "length bdf = n_bins self"
proof -
  obtain df where a: "adjust_odds am self (count_bins self (data x) (data y)) = Inr df"
    and s: "score_bins self (order_bins self df) = Inr bdf"
    using assms by (rule calc_bins_Inr)
  show ?thesis
    using score_bins_length[OF s] adjust_odds_length[OF a] by simp
qed

lemma length_calc_mapping_df [simp]: "length (calc_mapping_df self bdf) = Suc (length bdf)"
  by (simp add: calc_mapping_df_def Let_def)

lemma fit_Inr:
  assumes "fit am self x y = Inr m"
  obtains bdf where "calc_bins am self x y = Inr bdf"
    and "m = self\<lparr>binning_df := Some bdf, mapping_df := Some (calc_mapping_df self bdf)\<rparr>"
    and "length bdf = n_bins self"
proof -
  from assms obtain bdf where c: "calc_bins am self x y = Inr bdf"
    and m: "m = self\<lparr>binning_df := Some bdf, mapping_df := Some (calc_mapping_df self bdf)\<rparr>"
    unfolding fit_def by (auto split: if_splits sum.splits)
  show ?thesis using that[OF c m calc_bins_length[OF c]] .
qed



text \<open>A fit that succeeds has at least one bin: without bins \<open>max\<close> has nothing to take.\<close>

lemma fit_n_bins_pos:
  assumes "fit am self x y = Inr m"
  shows "0 < n_bins self"
proof -
  obtain bdf where c: "calc_bins am self x y = Inr bdf"
    using assms by (rule fit_Inr)
  obtain df where a: "adjust_odds am self (count_bins self (data x) (data y)) = Inr df"
    using c by (rule calc_bins_Inr)
  have "map (\<lambda>b. fill0 (odds b)) (count_bins self (data x) (data y)) \<noteq> []"
    using a by (rule adjust_odds_Inr(1))
  then show ?thesis by (simp add: count_bins_def)
qed

section \<open>The worked example\<close>

lemma log2_100_lower: "53 / 8 < log 2 100"
proof -
  have p: "(2::real) ^ 53 < 100 ^ 8" by simp
  have e1: "log 2 ((2::real) ^ 53) = real 53 * log 2 2" by (rule log_nat_power) simp
  have e2: "log 2 ((100::real) ^ 8) = real 8 * log 2 100" by (rule log_nat_power) simp
  have "log 2 ((2::real) ^ 53) < log 2 (100 ^ 8)"
    by (rule iffD2[OF log_less_cancel_iff]) (use p in simp_all)
  then have "real 53 * log 2 2 < real 8 * log 2 100"
    by (simp only: e1 e2)
  then show ?thesis by simp
qed

lemma log2_100_upper: "log 2 100 < 133 / 20"
proof -
  have p: "(100::real) ^ 20 < 2 ^ 133" by simp
  have e1: "log 2 ((2::real) ^ 133) = real 133 * log 2 2" by (rule log_nat_power) simp
  have e2: "log 2 ((100::real) ^ 20) = real 20 * log 2 100" by (rule log_nat_power) simp
  have "log 2 ((100::real) ^ 20) < log 2 (2 ^ 133)"
    by (rule iffD2[OF log_less_cancel_iff]) (use p in simp_all)
  then have "real 20 * log 2 100 < real 133 * log 2 2"
    by (simp only: e1 e2)
  then show ?thesis by simp
qed

lemma score_of_default_1: "score_of (default_card n bf) 1 = Inr 632"
proof -
  have "\<lfloor>500 + 20 * log 2 100\<rfloor> = (632::int)"
    using log2_100_lower log2_100_upper by (simp add: floor_eq_iff)
  moreover have "(0::real) \<le> 500 + 20 * log 2 100"
    using log2_100_lower by simp
  ultimately show ?thesis
    by (simp add: score_of_def default_card_def py_int_def)
qed

lemma score_of_default_2: "score_of (default_card n bf) 2 = Inr 652"
proof -
  have "log 2 (2 * 100) = log 2 2 + log 2 100"
    by (rule log_mult_pos) simp_all
  then have e: "log 2 200 = 1 + log 2 100" by simp
  have "\<lfloor>500 + 20 * log 2 200\<rfloor> = (652::int)"
    unfolding e using log2_100_lower log2_100_upper by (simp add: floor_eq_iff)
  moreover have "(0::real) \<le> 500 + 20 * log 2 200"
    unfolding e using log2_100_lower by simp
  ultimately show ?thesis
    by (simp add: score_of_def default_card_def py_int_def)
qed

lemma example_count:
  "count_bins (default_card 2 False) (data example_x) (data example_y) =
     [\<lparr>prob_l = 0, prob_r = 0, mean_prob = 0, score = 0, bad_hits = Some 1,
       good_hits = Some 1, hits = Some 2, odds = Num 1, adjusted_odds = 0\<rparr>,
      \<lparr>prob_l = 0, prob_r = 0, mean_prob = 0, score = 0, bad_hits = Some 1,
       good_hits = Some 2, hits = Some 3, odds = Num 2, adjusted_odds = 0\<rparr>]"
  by (simp add: count_bins_def count_row_def sample_bins_def step_def py_int_def
      group_count_def group_sum_def group_def upt_rec Let_def default_card_def
      example_x_def example_y_def)

lemma example_adjust:
  "adjust_odds am (default_card 2 False)
     (count_bins (default_card 2 False) (data example_x) (data example_y)) =
   Inr [\<lparr>prob_l = 0, prob_r = 0, mean_prob = 0, score = 0, bad_hits = Some 1,
         good_hits = Some 1, hits = Some 2, odds = Num 1, adjusted_odds = 1\<rparr>,
        \<lparr>prob_l = 0, prob_r = 0, mean_prob = 0, score = 0, bad_hits = Some 1,
         good_hits = Some 2, hits = Some 3, odds = Num 2, adjusted_odds = 2\<rparr>]"
  unfolding example_count
  by (cases am)
     (simp_all add: adjust_odds_def fill0_def argmax_def argmin_def min_odds_index_def
        default_card_def Let_def)

lemma example_calc_bins: "calc_bins am (default_card 2 False) example_x example_y = Inr example_bins"
proof -
  have n: "ndim example_x = 1" "ndim example_y = 1"
    "length (data example_x) = length (data example_y)"
    by (simp_all add: ndim_def example_x_def example_y_def)
  have s: "step (default_card 2 False) = 1 / 2" "bad_flag (default_card 2 False) = False"
    by (simp_all add: step_def default_card_def)
  show ?thesis
    unfolding calc_bins_def example_adjust
    by (simp add: n s score_bins_def order_bins_def set_probs_def example_bins_def
        score_of_default_1 score_of_default_2 Let_def)
qed

lemma example_fit: "fit am (default_card 2 False) example_x example_y = Inr example_model"
proof -
  have "calc_mapping_df (default_card 2 False) example_bins =
          [\<lparr>slope = 80, intercept = 612\<rparr>, \<lparr>slope = 40, intercept = 622\<rparr>,
           \<lparr>slope = 40, intercept = 622\<rparr>]"
    by (simp add: calc_mapping_df_def example_bins_def default_card_def Let_def)
  then show ?thesis
    by (simp add: fit_def is_one_dim_array_def ndim_def example_calc_bins example_model_def)
       (simp add: example_x_def example_y_def)
qed

section \<open>transform\<close>











section \<open>The order of the bins\<close>

lemma insort_key_last:
  assumes "\<forall>a\<in>set as. f a < f b"
  shows "insort_key f b as = as @ [b]"
  using assms by (induction as) auto

lemma sort_key_decreasing:
  assumes "sorted_wrt (\<lambda>a b. f b < f a) as"
  shows "sort_key f as = rev as"
  using assms
proof (induction as)
  case Nil
  then show ?case by simp
next
  case (Cons a as)
  then have "sort_key f as = rev as" by simp
  moreover have "\<forall>c\<in>set (rev as). f c < f a" using Cons.prems by simp
  ultimately show ?case by (simp add: insort_key_last)
qed

lemma set_probs_nth:
  assumes "i < length df"
  shows "set_probs self df ! i =
           (df ! i)\<lparr>prob_l := real i * step self, prob_r := real i * step self + step self\<rparr>"
  using assms by (simp add: set_probs_def nth_enumerate_eq)

lemma sort_desc_set_probs:
  assumes "0 < n_bins self"
  shows "sort_desc (set_probs self df) = rev (set_probs self df)"
proof -
  have s: "0 < step self" using assms by (simp add: step_def)
  have "sorted_wrt (\<lambda>a b. - prob_l b < - prob_l a) (set_probs self df)"
    unfolding sorted_wrt_iff_nth_less
  proof (intro allI impI)
    fix i j assume "i < j" "j < length (set_probs self df)"
    then show "- prob_l (set_probs self df ! j) < - prob_l (set_probs self df ! i)"
      using s by (simp add: set_probs_nth)
  qed
  then show ?thesis unfolding sort_desc_def by (rule sort_key_decreasing)
qed

text \<open>
  The frame after lines 135 to 142: row \<open>i\<close> is row \<open>i\<close> of the repaired frame, or row
  \<open>n_bins - 1 - i\<close> when \<open>bad_flag\<close> is set, with the bounds of the \<open>i\<close>-th interval.
\<close>

lemma order_bins_nth:
  assumes "0 < n_bins self" and "i < length df"
  shows "order_bins self df ! i =
           (df ! (if bad_flag self then length df - 1 - i else i))
             \<lparr>prob_l := real i * step self, prob_r := real i * step self + step self\<rparr>"
proof (cases "bad_flag self")
  case False
  then show ?thesis using assms(2) by (simp add: order_bins_def set_probs_nth)
next
  case True
  have "order_bins self df = set_probs self (rev (set_probs self df))"
    using True sort_desc_set_probs[OF assms(1)] by (simp add: order_bins_def)
  moreover have "length df - 1 - i < length df" using assms(2) by simp
  ultimately show ?thesis
    using True assms(2) by (simp add: set_probs_nth rev_nth Suc_diff_Suc)
qed

section \<open>Only \<open>adjusted_odds\<close> is rewritten by the repair\<close>

lemma set_adjusted_erase:
  "map (\<lambda>b. b\<lparr>adjusted_odds := c\<rparr>) (set_adjusted df i v) = map (\<lambda>b. b\<lparr>adjusted_odds := c\<rparr>) df"
proof (cases "i < length df")
  case True
  then show ?thesis
    by (intro nth_equalityI) (auto simp: set_adjusted_def nth_list_update)
next
  case False
  then have "df[i := (df ! i)\<lparr>adjusted_odds := v\<rparr>] = df"
    by (intro list_update_beyond) simp
  then show ?thesis by (simp add: set_adjusted_def)
qed

lemma low_step_erase:
  "map (\<lambda>b. b\<lparr>adjusted_odds := c\<rparr>) (snd (snd (low_step i s))) =
   map (\<lambda>b. b\<lparr>adjusted_odds := c\<rparr>) (snd (snd s))"
  by (cases s) (simp add: low_step_def Let_def set_adjusted_erase)

lemma high_step_erase:
  "map (\<lambda>b. b\<lparr>adjusted_odds := c\<rparr>) (snd (snd (high_step i s))) =
   map (\<lambda>b. b\<lparr>adjusted_odds := c\<rparr>) (snd (snd s))"
  by (cases s) (simp add: high_step_def Let_def set_adjusted_erase)

lemma mid_step_erase:
  "map (\<lambda>b. b\<lparr>adjusted_odds := c\<rparr>) (mid_step i df) = map (\<lambda>b. b\<lparr>adjusted_odds := c\<rparr>) df"
  by (simp add: mid_step_def set_adjusted_erase)

lemma fold_low_erase:
  "map (\<lambda>b. b\<lparr>adjusted_odds := c\<rparr>) (snd (snd (fold low_step js s))) =
   map (\<lambda>b. b\<lparr>adjusted_odds := c\<rparr>) (snd (snd s))"
  by (induction js arbitrary: s) (simp_all add: low_step_erase)

lemma fold_high_erase:
  "map (\<lambda>b. b\<lparr>adjusted_odds := c\<rparr>) (snd (snd (fold high_step js s))) =
   map (\<lambda>b. b\<lparr>adjusted_odds := c\<rparr>) (snd (snd s))"
  by (induction js arbitrary: s) (simp_all add: high_step_erase)

lemma fold_mid_erase:
  "map (\<lambda>b. b\<lparr>adjusted_odds := c\<rparr>) (fold mid_step js df) = map (\<lambda>b. b\<lparr>adjusted_odds := c\<rparr>) df"
  by (induction js arbitrary: df) (simp_all add: mid_step_erase)

lemma adjust_odds_erase:
  assumes "adjust_odds am self df = Inr df'"
  shows "map (\<lambda>b. b\<lparr>adjusted_odds := c\<rparr>) df' = map (\<lambda>b. b\<lparr>adjusted_odds := c\<rparr>) df"
  unfolding adjust_odds_Inr(3)[OF assms]
  by (simp add: fold_mid_erase fold_high_erase fold_low_erase comp_def)


section \<open>The scored frame\<close>

lemma score_bins_nth:
  assumes "score_bins self df = Inr bdf" and "i < length df"
  shows "\<exists>s. score_of self (adjusted_odds (df ! i)) = Inr s
             \<and> bdf ! i = (df ! i)\<lparr>score := s, mean_prob := (prob_l (df ! i) + prob_r (df ! i)) / 2\<rparr>"
proof -
  obtain scores where s: "map (\<lambda>b. score_of self (adjusted_odds b)) df = map Inr scores"
    and b: "bdf = map (\<lambda>(b, s). b\<lparr>score := s, mean_prob := (prob_l b + prob_r b) / 2\<rparr>)
                 (zip df scores)"
    using assms(1) by (rule score_bins_Inr)
  have l: "length scores = length df" using s by (metis length_map)
  have "map (\<lambda>b. score_of self (adjusted_odds b)) df ! i = map Inr scores ! i"
    using s by simp
  then have "score_of self (adjusted_odds (df ! i)) = Inr (scores ! i)"
    using assms(2) l by simp
  moreover have "bdf ! i = (df ! i)\<lparr>score := scores ! i,
                              mean_prob := (prob_l (df ! i) + prob_r (df ! i)) / 2\<rparr>"
    using b assms(2) l by simp
  ultimately show ?thesis by blast
qed

lemma score_of_Inr:
  assumes "score_of self v = Inr s"
  shows "0 < v / standard_odds self"
    and "s = py_int (standard_score self + pdo self * log 2 (v / standard_odds self))"
  using assms by (auto simp: score_of_def split: if_splits)

text \<open>The rows of \<open>binning_df\<close> after a successful \<open>fit\<close>.\<close>

lemma fit_frame:
  assumes "0 < n_bins self" and "fit am self x y = Inr m" and "binning_df m = Some bdf"
  obtains df where "adjust_odds am self (count_bins self (data x) (data y)) = Inr df"
    and "length df = n_bins self" and "length bdf = n_bins self"
    and "\<And>i. i < n_bins self \<Longrightarrow>
           adjusted_odds (bdf ! i) =
             adjusted_odds (df ! (if bad_flag self then n_bins self - 1 - i else i))"
    and "\<And>i. i < n_bins self \<Longrightarrow>
           hits (bdf ! i) = hits (df ! (if bad_flag self then n_bins self - 1 - i else i))"
    and "\<And>i. i < n_bins self \<Longrightarrow> prob_l (bdf ! i) = real i * step self"
    and "\<And>i. i < n_bins self \<Longrightarrow>
           score_of self (adjusted_odds (bdf ! i)) = Inr (score (bdf ! i))"
proof -
  obtain bdf' where c: "calc_bins am self x y = Inr bdf'"
    and m: "m = self\<lparr>binning_df := Some bdf', mapping_df := Some (calc_mapping_df self bdf')\<rparr>"
    using assms(2) by (rule fit_Inr)
  have e: "bdf' = bdf" using m assms(3) by simp
  obtain df where a: "adjust_odds am self (count_bins self (data x) (data y)) = Inr df"
    and s: "score_bins self (order_bins self df) = Inr bdf"
    using c unfolding e by (rule calc_bins_Inr)
  have l: "length df = n_bins self" using adjust_odds_length[OF a] by simp
  have lb: "length bdf = n_bins self" using score_bins_length[OF s] l by simp
  have row: "\<exists>sc. score_of self (adjusted_odds (order_bins self df ! i)) = Inr sc
         \<and> bdf ! i = (df ! (if bad_flag self then n_bins self - 1 - i else i))
              \<lparr>prob_l := real i * step self, prob_r := real i * step self + step self,
               score := sc, mean_prob := (real i * step self + (real i * step self + step self)) / 2\<rparr>"
    if i: "i < n_bins self" for i
  proof -
    obtain sc where sc: "score_of self (adjusted_odds (order_bins self df ! i)) = Inr sc"
      and r: "bdf ! i = (order_bins self df ! i)\<lparr>score := sc,
              mean_prob := (prob_l (order_bins self df ! i) + prob_r (order_bins self df ! i)) / 2\<rparr>"
      using score_bins_nth[OF s, of i] i l by auto
    have o: "order_bins self df ! i =
           (df ! (if bad_flag self then n_bins self - 1 - i else i))
             \<lparr>prob_l := real i * step self, prob_r := real i * step self + step self\<rparr>"
      using order_bins_nth[OF assms(1), of i df] i l by simp
    show ?thesis using sc r unfolding o by simp
  qed
  show ?thesis
  proof (rule that[OF a l lb])
    fix i assume i: "i < n_bins self"
    from row[OF i] obtain sc where
      sc: "score_of self (adjusted_odds (order_bins self df ! i)) = Inr sc"
      and r: "bdf ! i = (df ! (if bad_flag self then n_bins self - 1 - i else i))
              \<lparr>prob_l := real i * step self, prob_r := real i * step self + step self,
               score := sc, mean_prob := (real i * step self + (real i * step self + step self)) / 2\<rparr>"
      by blast
    have o: "order_bins self df ! i =
           (df ! (if bad_flag self then n_bins self - 1 - i else i))
             \<lparr>prob_l := real i * step self, prob_r := real i * step self + step self\<rparr>"
      using order_bins_nth[OF assms(1), of i df] i l by simp
    show "adjusted_odds (bdf ! i) =
            adjusted_odds (df ! (if bad_flag self then n_bins self - 1 - i else i))"
      unfolding r by simp
    show "hits (bdf ! i) = hits (df ! (if bad_flag self then n_bins self - 1 - i else i))"
      unfolding r by simp
    show "prob_l (bdf ! i) = real i * step self"
      unfolding r by simp
    show "score_of self (adjusted_odds (bdf ! i)) = Inr (score (bdf ! i))"
      using sc unfolding r o by simp
  qed
qed

section \<open>The per-bin score\<close>

lemma flipped_adjust:
  "adjust_odds am (default_card 2 True)
     (count_bins (default_card 2 True) (data flipped_x) (data flipped_y)) =
   Inr [\<lparr>prob_l = 0, prob_r = 0, mean_prob = 0, score = 0, bad_hits = Some 1,
         good_hits = Some 1, hits = Some 2, odds = Num 1, adjusted_odds = 1\<rparr>,
        \<lparr>prob_l = 0, prob_r = 0, mean_prob = 0, score = 0, bad_hits = Some 1,
         good_hits = Some 2, hits = Some 3, odds = Num 2, adjusted_odds = 2\<rparr>]"
proof -
  have c: "count_bins (default_card 2 True) (data flipped_x) (data flipped_y) =
     [\<lparr>prob_l = 0, prob_r = 0, mean_prob = 0, score = 0, bad_hits = Some 1,
       good_hits = Some 1, hits = Some 2, odds = Num 1, adjusted_odds = 0\<rparr>,
      \<lparr>prob_l = 0, prob_r = 0, mean_prob = 0, score = 0, bad_hits = Some 1,
       good_hits = Some 2, hits = Some 3, odds = Num 2, adjusted_odds = 0\<rparr>]"
    by (simp add: count_bins_def count_row_def sample_bins_def step_def py_int_def
        group_count_def group_sum_def group_def upt_rec Let_def default_card_def
        flipped_x_def flipped_y_def)
  show ?thesis
    unfolding c
    by (cases am)
       (simp_all add: adjust_odds_def fill0_def argmax_def argmin_def min_odds_index_def
          default_card_def Let_def)
qed

lemma flipped_fit: "fit am (default_card 2 True) flipped_x flipped_y = Inr flipped_model"
proof -
  have n: "ndim flipped_x = 1" "ndim flipped_y = 1"
    "length (data flipped_x) = length (data flipped_y)"
    by (simp_all add: ndim_def flipped_x_def flipped_y_def)
  have s: "step (default_card 2 True) = 1 / 2" "bad_flag (default_card 2 True) = True"
    by (simp_all add: step_def default_card_def)
  have c: "calc_bins am (default_card 2 True) flipped_x flipped_y = Inr flipped_bins"
    unfolding calc_bins_def flipped_adjust
    by (simp add: n s score_bins_def order_bins_def set_probs_def sort_desc_def flipped_bins_def
        score_of_default_1 score_of_default_2 Let_def)
  have "calc_mapping_df (default_card 2 True) flipped_bins =
          [\<lparr>slope = - 80, intercept = 672\<rparr>, \<lparr>slope = - 40, intercept = 662\<rparr>,
           \<lparr>slope = - 40, intercept = 662\<rparr>]"
    by (simp add: calc_mapping_df_def flipped_bins_def default_card_def Let_def)
  then show ?thesis
    by (simp add: fit_def is_one_dim_array_def ndim_def c flipped_model_def)
       (simp add: flipped_x_def flipped_y_def)
qed

text \<open>
  Claim C5, as the code has it. The score of every bin of a fitted model is
  \<open>int(standard_score + pdo * log2(adjusted_odds / standard_odds))\<close>: an integer, by
  truncation toward zero, on a positive argument of the logarithm.
\<close>

theorem score_truncates:
  assumes "fit am self x y = Inr m" and "binning_df m = Some bdf" and "i < n_bins self"
  shows "0 < adjusted_odds (bdf ! i) / standard_odds self
       \<and> score (bdf ! i) =
           py_int (standard_score self
                   + pdo self * log 2 (adjusted_odds (bdf ! i) / standard_odds self))"
proof -
  have n: "0 < n_bins self" using assms(3) by simp
  obtain df where "score_of self (adjusted_odds (bdf ! i)) = Inr (score (bdf ! i))"
    using fit_frame[OF n assms(1,2)] assms(3) by metis
  then show ?thesis using score_of_Inr by blast
qed

theorem score_truncates_witness:
  "fit AsLabel (default_card 2 False) example_x example_y = Inr example_model
   \<and> binning_df example_model = Some example_bins
   \<and> (0::nat) < n_bins (default_card 2 False)
   \<and> score (example_bins ! 0) = py_int (500 + 20 * log 2 100)
   \<and> score (example_bins ! 0) = 632"
proof -
  have b: "binning_df example_model = Some example_bins"
    by (simp add: example_model_def)
  have n: "(0::nat) < n_bins (default_card 2 False)" by (simp add: default_card_def)
  have "score (example_bins ! 0) = py_int (500 + 20 * log 2 100)"
    using score_truncates[OF example_fit[of AsLabel] b n]
    by (simp add: example_bins_def default_card_def)
  moreover have "score (example_bins ! 0) = 632" by (simp add: example_bins_def)
  ultimately show ?thesis using example_fit b n by simp
qed

text \<open>
  Rounding to the nearest integer would give another score: the lower bin of the example
  has adjusted odds 1 and \<open>500 + 20 * log2 100\<close> lies between 632.5 and 633; the code
  stores 632.
\<close>

theorem score_not_rounded:
  "fit AsLabel (default_card 2 False) example_x example_y = Inr example_model
   \<and> binning_df example_model = Some example_bins
   \<and> adjusted_odds (example_bins ! 0) = 1
   \<and> score (example_bins ! 0) = 632
   \<and> py_round (standard_score (default_card 2 False)
        + pdo (default_card 2 False)
          * log 2 (adjusted_odds (example_bins ! 0) / standard_odds (default_card 2 False)))
       = 633"
proof -
  have f: "\<lfloor>500 + 20 * log 2 100\<rfloor> = (632::int)"
    using log2_100_lower log2_100_upper by (simp add: floor_eq_iff)
  have "1 / 2 < 500 + 20 * log 2 100 - 632"
    using log2_100_lower by simp
  then have "py_round (500 + 20 * log 2 100) = 633"
    unfolding py_round_def Let_def f by simp
  then show ?thesis
    by (simp add: example_fit) (simp add: example_model_def example_bins_def default_card_def)
qed

section \<open>The order of the scores\<close>

lemma py_int_mono:
  assumes "a \<le> b"
  shows "py_int a \<le> py_int b"
proof -
  consider "0 \<le> a" | "b < 0" | "a < 0" "0 \<le> b" by linarith
  then show ?thesis
  proof cases
    case 1
    then show ?thesis using assms by (simp add: py_int_def floor_mono)
  next
    case 2
    then show ?thesis using assms by (simp add: py_int_def ceiling_mono)
  next
    case 3
    have c1: "\<lceil>a\<rceil> \<le> 0" using 3(1) by (simp add: ceiling_le_iff)
    have c2: "0 \<le> \<lfloor>b\<rfloor>" using 3(2) by simp
    have "\<lceil>a\<rceil> \<le> \<lfloor>b\<rfloor>" by (rule order_trans[OF c1 c2])
    then show ?thesis using 3 by (simp add: py_int_def)
  qed
qed

lemma score_of_mono:
  assumes "score_of self v = Inr s" and "score_of self w = Inr t"
    and "0 \<le> pdo self" and "0 < standard_odds self" and "v \<le> w"
  shows "s \<le> t"
proof -
  have v: "0 < v / standard_odds self" and w: "0 < w / standard_odds self"
    using score_of_Inr(1)[OF assms(1)] score_of_Inr(1)[OF assms(2)] by simp_all
  have "v / standard_odds self \<le> w / standard_odds self"
    using assms(4,5) by (simp add: divide_right_mono)
  then have "log 2 (v / standard_odds self) \<le> log 2 (w / standard_odds self)"
    using v w by simp
  then have "pdo self * log 2 (v / standard_odds self) \<le> pdo self * log 2 (w / standard_odds self)"
    using assms(3) by (rule mult_left_mono)
  then have "py_int (standard_score self + pdo self * log 2 (v / standard_odds self))
           \<le> py_int (standard_score self + pdo self * log 2 (w / standard_odds self))"
    by (intro py_int_mono) simp
  then show ?thesis
    using score_of_Inr(2)[OF assms(1)] score_of_Inr(2)[OF assms(2)] by simp
qed

text \<open>
  Claim C6, as the code has it. The scores follow the repaired odds: of two bins of a
  fitted model the one with the smaller adjusted odds has the smaller or equal score
  (for \<open>pdo \<ge> 0\<close> and positive \<open>standard_odds\<close>). The final frame, in ascending
  \<open>prob_l\<close>, holds the repaired odds in the order \<open>__adjust_odds\<close> left them, reversed
  when \<open>bad_flag\<close> is set. So when the repaired odds are non-decreasing over the
  (flipped) bins, the scores in ascending \<open>prob_l\<close> are non-decreasing without
  \<open>bad_flag\<close> and non-increasing with it; nothing in \<open>fit\<close> makes the odds monotone.
\<close>

theorem score_order_follows_odds:
  assumes "fit am self x y = Inr m" and "binning_df m = Some bdf"
    and "0 \<le> pdo self" and "0 < standard_odds self"
  shows "\<exists>df. adjust_odds am self (count_bins self (data x) (data y)) = Inr df
       \<and> map adjusted_odds bdf =
           (if bad_flag self then rev (map adjusted_odds df) else map adjusted_odds df)
       \<and> map prob_l bdf = map (\<lambda>i. real i * step self) [0..<n_bins self]
       \<and> (\<forall>i<n_bins self. \<forall>j<n_bins self.
             adjusted_odds (bdf ! i) \<le> adjusted_odds (bdf ! j) \<longrightarrow> score (bdf ! i) \<le> score (bdf ! j))
       \<and> (sorted (map adjusted_odds df) \<longrightarrow>
             (if bad_flag self then sorted (rev (map score bdf)) else sorted (map score bdf)))"
proof -
  obtain df where a: "adjust_odds am self (count_bins self (data x) (data y)) = Inr df"
    and l: "length df = n_bins self" and lb: "length bdf = n_bins self"
    and adj: "\<And>i. i < n_bins self \<Longrightarrow>
           adjusted_odds (bdf ! i) =
             adjusted_odds (df ! (if bad_flag self then n_bins self - 1 - i else i))"
    and pl: "\<And>i. i < n_bins self \<Longrightarrow> prob_l (bdf ! i) = real i * step self"
    and sc: "\<And>i. i < n_bins self \<Longrightarrow>
           score_of self (adjusted_odds (bdf ! i)) = Inr (score (bdf ! i))"
    using fit_frame[OF fit_n_bins_pos[OF assms(1)] assms(1,2)] by metis
  have col: "map adjusted_odds bdf =
           (if bad_flag self then rev (map adjusted_odds df) else map adjusted_odds df)"
  proof (rule nth_equalityI)
    show "length (map adjusted_odds bdf) =
            length (if bad_flag self then rev (map adjusted_odds df) else map adjusted_odds df)"
      using l lb by simp
  next
    fix i assume "i < length (map adjusted_odds bdf)"
    then have i: "i < n_bins self" using lb by simp
    then have "n_bins self - 1 - i < n_bins self" by simp
    then show "map adjusted_odds bdf ! i =
            (if bad_flag self then rev (map adjusted_odds df) else map adjusted_odds df) ! i"
      using adj[OF i] i l lb by (simp add: rev_nth Suc_diff_Suc)
  qed
  have probs: "map prob_l bdf = map (\<lambda>i. real i * step self) [0..<n_bins self]"
    by (rule nth_equalityI) (simp_all add: lb pl)
  have pair: "score (bdf ! i) \<le> score (bdf ! j)"
    if "i < n_bins self" "j < n_bins self" "adjusted_odds (bdf ! i) \<le> adjusted_odds (bdf ! j)"
    for i j
    using score_of_mono[OF sc[OF that(1)] sc[OF that(2)] assms(3,4) that(3)] .
  have mono: "if bad_flag self then sorted (rev (map score bdf)) else sorted (map score bdf)"
    if s: "sorted (map adjusted_odds df)"
  proof (cases "bad_flag self")
    case False
    have "sorted (map score bdf)"
      unfolding sorted_iff_nth_mono
    proof (intro allI impI)
      fix i j assume ij: "i \<le> j" "j < length (map score bdf)"
      then have i: "i < n_bins self" and j: "j < n_bins self" using lb by simp_all
      have "adjusted_odds (df ! i) \<le> adjusted_odds (df ! j)"
        using s ij i j l by (simp add: sorted_iff_nth_mono)
      then have "adjusted_odds (bdf ! i) \<le> adjusted_odds (bdf ! j)"
        using adj[OF i] adj[OF j] False by simp
      then show "map score bdf ! i \<le> map score bdf ! j"
        using pair[OF i j] i j lb by simp
    qed
    then show ?thesis using False by simp
  next
    case True
    have "sorted (rev (map score bdf))"
      unfolding sorted_iff_nth_mono
    proof (intro allI impI)
      fix i j assume ij: "i \<le> j" "j < length (rev (map score bdf))"
      then have i: "i < n_bins self" and j: "j < n_bins self" using lb by simp_all
      have i': "n_bins self - 1 - i < n_bins self" and j': "n_bins self - 1 - j < n_bins self"
        using i j by simp_all
      have "adjusted_odds (df ! i) \<le> adjusted_odds (df ! j)"
        using s ij i j l by (simp add: sorted_iff_nth_mono)
      moreover have "adjusted_odds (bdf ! (n_bins self - 1 - i)) = adjusted_odds (df ! i)"
        using adj[OF i'] True i by simp
      moreover have "adjusted_odds (bdf ! (n_bins self - 1 - j)) = adjusted_odds (df ! j)"
        using adj[OF j'] True j by simp
      ultimately have "score (bdf ! (n_bins self - 1 - i)) \<le> score (bdf ! (n_bins self - 1 - j))"
        using pair[OF i' j'] by simp
      then show "rev (map score bdf) ! i \<le> rev (map score bdf) ! j"
        using i j i' j' lb by (simp add: rev_nth Suc_diff_Suc)
    qed
    then show ?thesis using True by simp
  qed
  show ?thesis using a col probs pair mono by blast
qed

theorem score_order_follows_odds_witness:
  "fit AsLabel (default_card 2 True) flipped_x flipped_y = Inr flipped_model
   \<and> binning_df flipped_model = Some flipped_bins
   \<and> (0::real) \<le> pdo (default_card 2 True) \<and> (0::real) < standard_odds (default_card 2 True)
   \<and> map adjusted_odds flipped_bins = [2, 1]
   \<and> sorted (rev (map score flipped_bins))"
proof -
  have b: "binning_df flipped_model = Some flipped_bins" by (simp add: flipped_model_def)
  have p: "(0::real) \<le> pdo (default_card 2 True)"
    and o: "(0::real) < standard_odds (default_card 2 True)"
    by (simp_all add: default_card_def)
  have f: "bad_flag (default_card 2 True)" by (simp add: default_card_def)
  obtain df where
    a: "adjust_odds AsLabel (default_card 2 True)
          (count_bins (default_card 2 True) (data flipped_x) (data flipped_y)) = Inr df"
    and s: "sorted (map adjusted_odds df) \<longrightarrow> sorted (rev (map score flipped_bins))"
    using score_order_follows_odds[OF flipped_fit[of AsLabel] b p o] f by auto
  have "map adjusted_odds df = [1, 2]"
    using a unfolding flipped_adjust by auto
  then have "sorted (rev (map score flipped_bins))"
    using s by simp
  moreover have "map adjusted_odds flipped_bins = [2, 1]" by (simp add: flipped_bins_def)
  ultimately show ?thesis using flipped_fit b p o by simp
qed

text \<open>
  With \<open>bad_flag\<close> set and odds that rise with the flipped probability, the scores in
  ascending \<open>prob_l\<close> fall: 652, then 632.
\<close>

theorem scores_decrease_when_flipped:
  "fit AsLabel (default_card 2 True) flipped_x flipped_y = Inr flipped_model
   \<and> binning_df flipped_model = Some flipped_bins
   \<and> map prob_l flipped_bins = [0, 1 / 2]
   \<and> map score flipped_bins = [652, 632]
   \<and> \<not> sorted (map score flipped_bins)"
  by (simp add: flipped_fit) (simp add: flipped_model_def flipped_bins_def)

section \<open>Conservation of hits\<close>













section \<open>The two sweeps of the repair\<close>

lemma set_adjusted_nth:
  assumes "i < length df"
  shows "set_adjusted df i v ! j = (if j = i then (df ! i)\<lparr>adjusted_odds := v\<rparr> else df ! j)"
  using assms by (simp add: set_adjusted_def nth_list_update)

lemma low_step_unfold:
  "low_step i (z, m, df) =
     (if z \<or> good_hits (df ! i) = Some 0 then (True, m / 2, set_adjusted df i (m / 2))
      else (False, m, df))"
  by (simp add: low_step_def Let_def)

lemma high_step_unfold:
  "high_step i (z, m, df) =
     (if z \<or> bad_hits (df ! i) = Some 0 then (True, m * 2, set_adjusted df i (m * 2))
      else (False, m, df))"
  by (simp add: high_step_def Let_def)

text \<open>
  The downward sweep from \<open>k - 1\<close> to 0: a row is rewritten exactly when the flag is
  set on reaching it, and then to a positive value if the running odds are positive.
\<close>

lemma low_sweep:
  assumes "k \<le> length df"
  shows "(\<forall>i. k \<le> i \<longrightarrow> snd (snd (fold low_step (rev [0..<k]) (z, m, df))) ! i = df ! i)
       \<and> (\<forall>i<k. \<not> (z \<or> (\<exists>j. i \<le> j \<and> j < k \<and> good_hits (df ! j) = Some 0)) \<longrightarrow>
             snd (snd (fold low_step (rev [0..<k]) (z, m, df))) ! i = df ! i)
       \<and> (0 < m \<longrightarrow> (\<forall>i<k. z \<or> (\<exists>j. i \<le> j \<and> j < k \<and> good_hits (df ! j) = Some 0) \<longrightarrow>
             0 < adjusted_odds (snd (snd (fold low_step (rev [0..<k]) (z, m, df))) ! i)))"
  using assms
proof (induction k arbitrary: z m df)
  case 0
  then show ?case by simp
next
  case (Suc k)
  have k: "k < length df" using Suc.prems by simp
  have f: "fold low_step (rev [0..<Suc k]) (z, m, df) =
           fold low_step (rev [0..<k]) (low_step k (z, m, df))"
    by simp
  show ?case
  proof (cases "z \<or> good_hits (df ! k) = Some 0")
    case True
    define df1 where "df1 = set_adjusted df k (m / 2)"
    define r where "r = snd (snd (fold low_step (rev [0..<k]) (True, m / 2, df1)))"
    have s: "low_step k (z, m, df) = (True, m / 2, df1)"
      using True by (simp add: low_step_unfold df1_def)
    have e: "snd (snd (fold low_step (rev [0..<Suc k]) (z, m, df))) = r"
      unfolding f s r_def ..
    have l1: "k \<le> length df1" using k by (simp add: df1_def)
    note ih = Suc.IH[OF l1, of True "m / 2", folded r_def]
    have keep: "r ! i = df1 ! i" if "k \<le> i" for i using ih that by blast
    have pos: "0 < adjusted_odds (r ! i)" if "0 < m" "i < k" for i
      using ih that by simp
    have a: "\<forall>i. Suc k \<le> i \<longrightarrow> r ! i = df ! i"
      using keep k by (simp add: df1_def set_adjusted_nth)
    have b: "\<forall>i<Suc k. \<not> (z \<or> (\<exists>j. i \<le> j \<and> j < Suc k \<and> good_hits (df ! j) = Some 0)) \<longrightarrow>
               r ! i = df ! i"
      using True by (metis less_Suc_eq_le lessI)
    have c: "0 < adjusted_odds (r ! i)" if "0 < m" "i < Suc k" for i
    proof (cases "i = k")
      case True
      then have "r ! i = (df ! k)\<lparr>adjusted_odds := m / 2\<rparr>"
        using keep[of k] k by (simp add: df1_def set_adjusted_nth)
      then show ?thesis using that(1) by simp
    next
      case False
      then show ?thesis using pos that by simp
    qed
    show ?thesis unfolding e using a b c by blast
  next
    case False
    define r where "r = snd (snd (fold low_step (rev [0..<k]) (False, m, df)))"
    have s: "low_step k (z, m, df) = (False, m, df)"
      using False by (simp add: low_step_unfold)
    have e: "snd (snd (fold low_step (rev [0..<Suc k]) (z, m, df))) = r"
      unfolding f s r_def ..
    have l1: "k \<le> length df" using k by simp
    note ih = Suc.IH[OF l1, of False m, folded r_def]
    have a: "\<forall>i. Suc k \<le> i \<longrightarrow> r ! i = df ! i"
      using ih by simp
    have b: "r ! i = df ! i"
      if "i < Suc k" "\<not> (z \<or> (\<exists>j. i \<le> j \<and> j < Suc k \<and> good_hits (df ! j) = Some 0))" for i
    proof (cases "i = k")
      case True
      then show ?thesis using ih by simp
    next
      case False
      then have "i < k" using that(1) by simp
      moreover have "\<not> (False \<or> (\<exists>j. i \<le> j \<and> j < k \<and> good_hits (df ! j) = Some 0))"
        using that(2) by (metis less_Suc_eq)
      ultimately show ?thesis using ih by blast
    qed
    have c: "0 < adjusted_odds (r ! i)"
      if "0 < m" "i < Suc k" "z \<or> (\<exists>j. i \<le> j \<and> j < Suc k \<and> good_hits (df ! j) = Some 0)" for i
    proof -
      from that(3) False obtain j where j: "i \<le> j" "j < Suc k" "good_hits (df ! j) = Some 0"
        by blast
      then have "j \<noteq> k" using False by blast
      then have "j < k" "i < k" using j by simp_all
      then have "\<exists>j. i \<le> j \<and> j < k \<and> good_hits (df ! j) = Some 0" using j by blast
      then show ?thesis using ih that(1) \<open>i < k\<close> by blast
    qed
    show ?thesis unfolding e using a b c by blast
  qed
qed

text \<open>The upward sweep from \<open>a\<close> to \<open>b - 1\<close>, likewise.\<close>

lemma high_sweep:
  assumes "b \<le> length df"
  shows "(\<forall>i. i < a \<or> b \<le> i \<longrightarrow> snd (snd (fold high_step [a..<b] (z, m, df))) ! i = df ! i)
       \<and> (\<forall>i. a \<le> i \<and> i < b \<and>
               \<not> (z \<or> (\<exists>j. a \<le> j \<and> j \<le> i \<and> bad_hits (df ! j) = Some 0)) \<longrightarrow>
             snd (snd (fold high_step [a..<b] (z, m, df))) ! i = df ! i)
       \<and> (0 < m \<longrightarrow> (\<forall>i. a \<le> i \<and> i < b \<and>
               (z \<or> (\<exists>j. a \<le> j \<and> j \<le> i \<and> bad_hits (df ! j) = Some 0)) \<longrightarrow>
             0 < adjusted_odds (snd (snd (fold high_step [a..<b] (z, m, df))) ! i)))"
  using assms
proof (induction "b - a" arbitrary: a z m df)
  case 0
  then have e: "[a..<b] = []" and ba: "b \<le> a" by simp_all
  show ?case unfolding e using ba by auto
next
  case (Suc d)
  have ab: "a < b" using Suc.hyps(2) by simp
  then have a: "a < length df" using Suc.prems by simp
  have d: "d = b - Suc a" using Suc.hyps(2) by simp
  have f: "fold high_step [a..<b] (z, m, df) =
           fold high_step [Suc a..<b] (high_step a (z, m, df))"
    using ab by (simp add: upt_rec[of a b])
  show ?case
  proof (cases "z \<or> bad_hits (df ! a) = Some 0")
    case True
    define df1 where "df1 = set_adjusted df a (m * 2)"
    define r where "r = snd (snd (fold high_step [Suc a..<b] (True, m * 2, df1)))"
    have s: "high_step a (z, m, df) = (True, m * 2, df1)"
      using True by (simp add: high_step_unfold df1_def)
    have e: "snd (snd (fold high_step [a..<b] (z, m, df))) = r"
      unfolding f s r_def ..
    have l1: "b \<le> length df1" using Suc.prems by (simp add: df1_def)
    note ih = Suc.hyps(1)[OF d l1, of True "m * 2", folded r_def]
    have keep: "r ! i = df1 ! i" if "i < Suc a \<or> b \<le> i" for i using ih that by blast
    have pos: "0 < adjusted_odds (r ! i)" if "0 < m" "Suc a \<le> i" "i < b" for i
      using ih that by simp
    have p1: "\<forall>i. i < a \<or> b \<le> i \<longrightarrow> r ! i = df ! i"
    proof (intro allI impI)
      fix i assume i: "i < a \<or> b \<le> i"
      then have "i \<noteq> a" using ab by auto
      moreover have "r ! i = df1 ! i" using keep[of i] i by auto
      ultimately show "r ! i = df ! i" using a by (simp add: df1_def set_adjusted_nth)
    qed
    have p2: "\<forall>i. a \<le> i \<and> i < b \<and>
               \<not> (z \<or> (\<exists>j. a \<le> j \<and> j \<le> i \<and> bad_hits (df ! j) = Some 0)) \<longrightarrow> r ! i = df ! i"
      using True by (metis order_refl)
    have p3: "0 < adjusted_odds (r ! i)" if "0 < m" "a \<le> i" "i < b" for i
    proof (cases "i = a")
      case True
      then have "r ! i = (df ! a)\<lparr>adjusted_odds := m * 2\<rparr>"
        using keep[of a] a by (simp add: df1_def set_adjusted_nth)
      then show ?thesis using that(1) by simp
    next
      case False
      then show ?thesis using pos that by simp
    qed
    show ?thesis unfolding e using p1 p2 p3 by blast
  next
    case False
    define r where "r = snd (snd (fold high_step [Suc a..<b] (False, m, df)))"
    have s: "high_step a (z, m, df) = (False, m, df)"
      using False by (simp add: high_step_unfold)
    have e: "snd (snd (fold high_step [a..<b] (z, m, df))) = r"
      unfolding f s r_def ..
    note ih = Suc.hyps(1)[OF d Suc.prems, of False m, folded r_def]
    have p1: "\<forall>i. i < a \<or> b \<le> i \<longrightarrow> r ! i = df ! i"
      using ih by (metis less_Suc_eq)
    have p2: "r ! i = df ! i"
      if "a \<le> i" "i < b"
        "\<not> (z \<or> (\<exists>j. a \<le> j \<and> j \<le> i \<and> bad_hits (df ! j) = Some 0))" for i
    proof (cases "i = a")
      case True
      then show ?thesis using ih by simp
    next
      case False
      then have "Suc a \<le> i" using that(1) by simp
      moreover have "\<not> (False \<or> (\<exists>j. Suc a \<le> j \<and> j \<le> i \<and> bad_hits (df ! j) = Some 0))"
        using that(3) by (metis Suc_leD)
      ultimately show ?thesis using ih that(2) by blast
    qed
    have p3: "0 < adjusted_odds (r ! i)"
      if "0 < m" "a \<le> i" "i < b"
        "z \<or> (\<exists>j. a \<le> j \<and> j \<le> i \<and> bad_hits (df ! j) = Some 0)" for i
    proof -
      from that(4) False obtain j where j: "a \<le> j" "j \<le> i" "bad_hits (df ! j) = Some 0"
        by blast
      then have "j \<noteq> a" using False by blast
      then have "Suc a \<le> j" "Suc a \<le> i" using j by simp_all
      then have "\<exists>j. Suc a \<le> j \<and> j \<le> i \<and> bad_hits (df ! j) = Some 0" using j by blast
      then show ?thesis using ih that(1,3) \<open>Suc a \<le> i\<close> by blast
    qed
    show ?thesis unfolding e using p1 p2 p3 by blast
  qed
qed

section \<open>The interior loop\<close>

lemma set_adjusted_beyond:
  assumes "\<not> i < length df"
  shows "set_adjusted df i v = df"
proof -
  have "length df \<le> i" using assms by simp
  then show ?thesis unfolding set_adjusted_def by (rule list_update_beyond)
qed

lemma mid_step_keeps_nonzero:
  assumes "adjusted_odds (df ! i) \<noteq> 0"
  shows "mid_step j df ! i = df ! i"
proof (cases "j < length df")
  case True
  then show ?thesis using assms by (auto simp: mid_step_def set_adjusted_nth)
next
  case False
  then have "\<And>v. set_adjusted df j v = df" by (rule set_adjusted_beyond)
  then show ?thesis by (simp add: mid_step_def)
qed

lemma mid_step_outside:
  assumes "i \<noteq> j"
  shows "mid_step j df ! i = df ! i"
proof (cases "j < length df")
  case True
  then show ?thesis using assms by (auto simp: mid_step_def set_adjusted_nth)
next
  case False
  then have "\<And>v. set_adjusted df j v = df" by (rule set_adjusted_beyond)
  then show ?thesis by (simp add: mid_step_def)
qed

lemma fold_mid_keeps_nonzero:
  assumes "adjusted_odds (df ! i) \<noteq> 0"
  shows "fold mid_step js df ! i = df ! i"
  using assms
proof (induction js arbitrary: df)
  case Nil
  then show ?case by simp
next
  case (Cons j js)
  have "mid_step j df ! i = df ! i" using Cons.prems by (rule mid_step_keeps_nonzero)
  then show ?case using Cons.IH[of "mid_step j df"] Cons.prems by simp
qed

lemma fold_mid_outside:
  assumes "i \<notin> set js"
  shows "fold mid_step js df ! i = df ! i"
  using assms
proof (induction js arbitrary: df)
  case Nil
  then show ?case by simp
next
  case (Cons j js)
  then show ?case by (simp add: mid_step_outside)
qed

lemma mid_step_nonneg:
  assumes "\<forall>i<length df. 0 \<le> adjusted_odds (df ! i)" and "0 < j" and "j + 1 < length df"
  shows "\<forall>i<length df. 0 \<le> adjusted_odds (mid_step j df ! i)"
proof (intro allI impI)
  fix i assume i: "i < length df"
  have j: "j < length df" "j - 1 < length df" using assms(3) by simp_all
  have p: "0 \<le> adjusted_odds (df ! (j - 1))" "0 \<le> adjusted_odds (df ! (j + 1))"
    "0 \<le> adjusted_odds (df ! i)"
    using assms(1,3) j i by simp_all
  show "0 \<le> adjusted_odds (mid_step j df ! i)"
    using p j by (auto simp: mid_step_def set_adjusted_nth)
qed

lemma fold_mid_nonneg:
  assumes "\<forall>i<length df. 0 \<le> adjusted_odds (df ! i)"
    and "\<forall>j\<in>set js. 0 < j \<and> j + 1 < length df"
  shows "\<forall>i<length df. 0 \<le> adjusted_odds (fold mid_step js df ! i)"
  using assms
proof (induction js arbitrary: df)
  case Nil
  then show ?case by simp
next
  case (Cons j js)
  have "\<forall>i<length (mid_step j df). 0 \<le> adjusted_odds (mid_step j df ! i)"
    using mid_step_nonneg[of df j] Cons.prems by simp
  moreover have "\<forall>k\<in>set js. 0 < k \<and> k + 1 < length (mid_step j df)"
    using Cons.prems(2) by simp
  ultimately have "\<forall>i<length (mid_step j df). 0 \<le> adjusted_odds (fold mid_step js (mid_step j df) ! i)"
    by (rule Cons.IH)
  then show ?case by simp
qed

lemma mid_sweep_pos:
  assumes "0 < a" and "b < length df"
    and "\<forall>i<length df. 0 \<le> adjusted_odds (df ! i)"
    and "0 < adjusted_odds (df ! (a - 1))"
  shows "\<forall>i. a \<le> i \<and> i < b \<longrightarrow> 0 < adjusted_odds (fold mid_step [a..<b] df ! i)"
  using assms
proof (induction "b - a" arbitrary: a df)
  case 0
  then show ?case by simp
next
  case (Suc d)
  have ab: "a < b" using Suc.hyps(2) by simp
  have d: "d = b - Suc a" using Suc.hyps(2) by simp
  have al: "a < length df" "a + 1 < length df" "a - 1 < length df"
    using ab Suc.prems(2) by simp_all
  define df1 where "df1 = mid_step a df"
  have f: "fold mid_step [a..<b] df = fold mid_step [Suc a..<b] df1"
    using ab by (simp add: upt_rec[of a b] df1_def)
  have l1: "length df1 = length df" by (simp add: df1_def)
  have nn1: "\<forall>i<length df1. 0 \<le> adjusted_odds (df1 ! i)"
    using mid_step_nonneg[OF Suc.prems(3) Suc.prems(1) al(2)] by (simp add: df1_def)
  have p: "0 < adjusted_odds (df ! (a - 1))" "0 \<le> adjusted_odds (df ! (a + 1))"
    "0 \<le> adjusted_odds (df ! a)"
    using Suc.prems(3,4) al by simp_all
  have pa: "0 < adjusted_odds (df1 ! a)"
    using p al by (auto simp: df1_def mid_step_def set_adjusted_nth)
  have ih: "\<forall>i. Suc a \<le> i \<and> i < b \<longrightarrow> 0 < adjusted_odds (fold mid_step [Suc a..<b] df1 ! i)"
  proof (rule Suc.hyps(1)[OF d])
    show "0 < Suc a" by simp
    show "b < length df1" using Suc.prems(2) l1 by simp
    show "\<forall>i<length df1. 0 \<le> adjusted_odds (df1 ! i)" by (rule nn1)
    show "0 < adjusted_odds (df1 ! (Suc a - 1))" using pa by simp
  qed
  have here: "fold mid_step [Suc a..<b] df1 ! a = df1 ! a"
    by (rule fold_mid_outside) simp
  show ?case
  proof (intro allI impI)
    fix i assume i: "a \<le> i \<and> i < b"
    show "0 < adjusted_odds (fold mid_step [a..<b] df ! i)"
    proof (cases "i = a")
      case True
      then show ?thesis unfolding f using here pa by simp
    next
      case False
      then have "Suc a \<le> i \<and> i < b" using i by simp
      then show ?thesis unfolding f using ih by blast
    qed
  qed
qed

section \<open>The two indices\<close>

lemma first_index_less:
  assumes "v \<in> set col"
  shows "first_index v col < length col"
  using assms by (induction col) auto

lemma first_index_nth:
  assumes "v \<in> set col"
  shows "col ! first_index v col = v"
  using assms by (induction col) auto

lemma first_index_filter_le:
  assumes "P v"
  shows "first_index v (filter P col) \<le> first_index v col"
  using assms by (induction col) auto

lemma min_nonzero:
  assumes "filter (\<lambda>v. v \<noteq> 0) col \<noteq> []"
  shows "Min (set (filter (\<lambda>v. v \<noteq> 0) col)) \<in> set (filter (\<lambda>v. v \<noteq> 0) col)"
proof (rule Min_in)
  show "finite (set (filter (\<lambda>v. v \<noteq> 0) col))" by (rule finite_set)
  show "set (filter (\<lambda>v. v \<noteq> 0) col) \<noteq> {}" using assms by (simp only: set_empty not_False_eq_True)
qed

lemma argmax_less:
  assumes "col \<noteq> []"
  shows "argmax col < length col"
  unfolding argmax_def using assms by (intro first_index_less Max_in) simp_all

lemma min_odds_index_less:
  assumes "filter (\<lambda>v. v \<noteq> 0) col \<noteq> []"
  shows "min_odds_index am col < length col"
proof (cases am)
  case AsLabel
  have "Min (set (filter (\<lambda>v. v \<noteq> 0) col)) \<in> set col"
    using min_nonzero[OF assms] by simp
  then show ?thesis using AsLabel by (simp add: min_odds_index_def first_index_less)
next
  case AsPosition
  have "argmin (filter (\<lambda>v. v \<noteq> 0) col) < length (filter (\<lambda>v. v \<noteq> 0) col)"
    unfolding argmin_def using min_nonzero[OF assms] by (rule first_index_less)
  also have "\<dots> \<le> length col" by simp
  finally show ?thesis using AsPosition by (simp add: min_odds_index_def)
qed

lemma min_odds_index_le_label:
  assumes "filter (\<lambda>v. v \<noteq> 0) col \<noteq> []"
  shows "min_odds_index am col \<le> min_odds_index AsLabel col"
proof (cases am)
  case AsLabel
  then show ?thesis by simp
next
  case AsPosition
  have "Min (set (filter (\<lambda>v. v \<noteq> 0) col)) \<noteq> 0"
    using min_nonzero[OF assms] by simp
  then have "first_index (Min (set (filter (\<lambda>v. v \<noteq> 0) col))) (filter (\<lambda>v. v \<noteq> 0) col)
             \<le> first_index (Min (set (filter (\<lambda>v. v \<noteq> 0) col))) col"
    by (rule first_index_filter_le)
  then show ?thesis using AsPosition by (simp add: min_odds_index_def argmin_def)
qed

lemma min_odds_label_nonzero:
  assumes "filter (\<lambda>v. v \<noteq> 0) col \<noteq> []"
  shows "col ! min_odds_index AsLabel col \<noteq> 0"
proof -
  have m: "Min (set (filter (\<lambda>v. v \<noteq> 0) col)) \<in> set (filter (\<lambda>v. v \<noteq> 0) col)"
    using assms by (rule min_nonzero)
  then have "Min (set (filter (\<lambda>v. v \<noteq> 0) col)) \<in> set col" by simp
  then have "col ! min_odds_index AsLabel col = Min (set (filter (\<lambda>v. v \<noteq> 0) col))"
    by (simp add: min_odds_index_def first_index_nth)
  then show ?thesis using m by simp
qed

lemma min_max_positive:
  assumes "filter (\<lambda>v. v \<noteq> 0) col \<noteq> []" and "\<forall>v\<in>set col. 0 \<le> v"
  shows "0 < Min (set (filter (\<lambda>v. v \<noteq> 0) col))" and "0 < Max (set col)"
proof -
  have m: "Min (set (filter (\<lambda>v. v \<noteq> 0) col)) \<in> set (filter (\<lambda>v. v \<noteq> 0) col)"
    using assms(1) by (rule min_nonzero)
  then have "Min (set (filter (\<lambda>v. v \<noteq> 0) col)) \<noteq> 0"
    and c: "Min (set (filter (\<lambda>v. v \<noteq> 0) col)) \<in> set col" by simp_all
  then show p: "0 < Min (set (filter (\<lambda>v. v \<noteq> 0) col))"
    using assms(2) by fastforce
  have "Min (set (filter (\<lambda>v. v \<noteq> 0) col)) \<le> Max (set col)"
    using c by (intro Max_ge) simp_all
  then show "0 < Max (set col)" using p by simp
qed

lemma adjust_odds_eq:
  assumes "filter (\<lambda>v. v \<noteq> 0) (raw_col df) \<noteq> []"
  shows "adjust_odds am self df =
     Inr (fold mid_step [low_index am df + 1..<high_index df - 1] (after_high am self df))"
proof -
  have c: "map adjusted_odds (map (\<lambda>b. b\<lparr>adjusted_odds := fill0 (odds b)\<rparr>) df) = raw_col df"
    by (simp add: raw_col_def comp_def)
  have "raw_col df \<noteq> []" using assms by auto
  then show ?thesis
    unfolding adjust_odds_def Let_def c low_index_def high_index_def after_high_def
      after_low_def after_fill_def
    using assms by simp
qed

section \<open>The repair, stage by stage\<close>

lemma same_counts:
  assumes "map (\<lambda>b. b\<lparr>adjusted_odds := 0\<rparr>) A = map (\<lambda>b. b\<lparr>adjusted_odds := 0\<rparr>) B"
    and "j < length B"
  shows "good_hits (A ! j) = good_hits (B ! j)" and "bad_hits (A ! j) = bad_hits (B ! j)"
    and "(A ! j)\<lparr>adjusted_odds := 0\<rparr> = (B ! j)\<lparr>adjusted_odds := 0\<rparr>"
proof -
  have l: "length A = length B" using assms(1) by (metis length_map)
  have "map (\<lambda>b. b\<lparr>adjusted_odds := 0\<rparr>) A ! j = map (\<lambda>b. b\<lparr>adjusted_odds := 0\<rparr>) B ! j"
    using assms(1) by simp
  then show e: "(A ! j)\<lparr>adjusted_odds := 0\<rparr> = (B ! j)\<lparr>adjusted_odds := 0\<rparr>"
    using assms(2) l by simp
  have "good_hits ((A ! j)\<lparr>adjusted_odds := 0\<rparr>) = good_hits ((B ! j)\<lparr>adjusted_odds := 0\<rparr>)"
    "bad_hits ((A ! j)\<lparr>adjusted_odds := 0\<rparr>) = bad_hits ((B ! j)\<lparr>adjusted_odds := 0\<rparr>)"
    using e by simp_all
  then show "good_hits (A ! j) = good_hits (B ! j)" "bad_hits (A ! j) = bad_hits (B ! j)"
    by simp_all
qed

lemma length_after_fill [simp]: "length (after_fill df) = length df"
  by (simp add: after_fill_def)

lemma length_after_low [simp]: "length (after_low am df) = length df"
  by (simp add: after_low_def fold_low_length)

lemma length_after_high [simp]: "length (after_high am self df) = length df"
  by (simp add: after_high_def fold_high_length)

lemma after_fill_nth:
  assumes "i < length df"
  shows "after_fill df ! i = (df ! i)\<lparr>adjusted_odds := fill0 (odds (df ! i))\<rparr>"
  using assms by (simp add: after_fill_def)

lemma low_index_less:
  assumes "filter (\<lambda>v. v \<noteq> 0) (raw_col df) \<noteq> []"
  shows "low_index am df < length df"
  using min_odds_index_less[OF assms, of am] by (simp add: low_index_def raw_col_def)

lemma high_index_less:
  assumes "filter (\<lambda>v. v \<noteq> 0) (raw_col df) \<noteq> []"
  shows "high_index df < length df"
proof -
  have "raw_col df \<noteq> []" using assms by auto
  then have "argmax (raw_col df) < length (raw_col df)" by (rule argmax_less)
  then show ?thesis by (simp add: high_index_def raw_col_def)
qed

lemma after_low_rows:
  assumes nz: "filter (\<lambda>v. v \<noteq> 0) (raw_col df) \<noteq> []"
  shows "\<not> low_repaired am df i \<Longrightarrow> after_low am df ! i = after_fill df ! i"
    and "low_repaired am df i \<Longrightarrow> 0 < Min (set (filter (\<lambda>v. v \<noteq> 0) (raw_col df))) \<Longrightarrow>
           0 < adjusted_odds (after_low am df ! i)"
proof -
  define L where "L = low_index am df"
  define mn where "mn = Min (set (filter (\<lambda>v. v \<noteq> 0) (raw_col df)))"
  define r where "r = snd (snd (fold low_step (rev [0..<L]) (False, mn, after_fill df)))"
  have r: "after_low am df = r" by (simp add: after_low_def r_def L_def mn_def)
  have Ll: "L < length df" unfolding L_def using nz by (rule low_index_less)
  have "L \<le> length (after_fill df)" using Ll by simp
  note low = low_sweep[OF this, of False mn, folded r_def]
  have lr: "low_repaired am df i \<longleftrightarrow>
              i < L \<and> (\<exists>j. i \<le> j \<and> j < L \<and> good_hits (after_fill df ! j) = Some 0)"
  proof -
    have "good_hits (after_fill df ! j) = good_hits (df ! j)" if "j < L" for j
      using that Ll by (simp add: after_fill_nth)
    then have "(\<exists>j. i \<le> j \<and> j < L \<and> good_hits (after_fill df ! j) = Some 0)
          \<longleftrightarrow> (\<exists>j. i \<le> j \<and> j < L \<and> good_hits (df ! j) = Some 0)"
      by metis
    then show ?thesis by (auto simp: low_repaired_def L_def)
  qed
  show "after_low am df ! i = after_fill df ! i" if "\<not> low_repaired am df i"
  proof (cases "i < L")
    case True
    then show ?thesis unfolding r using low that lr by blast
  next
    case False
    then show ?thesis unfolding r using low by simp
  qed
  show "0 < adjusted_odds (after_low am df ! i)"
    if "low_repaired am df i" "0 < Min (set (filter (\<lambda>v. v \<noteq> 0) (raw_col df)))"
    unfolding r using low that lr unfolding mn_def by blast
qed

lemma after_low_bad_hits:
  assumes "j < length df"
  shows "bad_hits (after_low am df ! j) = bad_hits (df ! j)"
proof -
  have "map (\<lambda>b. b\<lparr>adjusted_odds := 0\<rparr>) (after_low am df) =
        map (\<lambda>b. b\<lparr>adjusted_odds := 0\<rparr>) (after_fill df)"
    unfolding after_low_def
    using fold_low_erase[of 0 "rev [0..<low_index am df]"
        "(False, Min (set (filter (\<lambda>v. v \<noteq> 0) (raw_col df))), after_fill df)"]
    by simp
  then have "bad_hits (after_low am df ! j) = bad_hits (after_fill df ! j)"
    using assms by (intro same_counts(2)) simp_all
  then show ?thesis using assms by (simp add: after_fill_nth)
qed

lemma after_high_rows:
  assumes len: "length df = n_bins self" and i: "i < length df"
  shows "\<not> high_repaired df i \<Longrightarrow> after_high am self df ! i = after_low am df ! i"
    and "high_repaired df i \<Longrightarrow> 0 < Max (set (raw_col df)) \<Longrightarrow>
           0 < adjusted_odds (after_high am self df ! i)"
proof -
  define M where "M = high_index df"
  define mx where "mx = Max (set (raw_col df))"
  define r where "r = snd (snd (fold high_step [M + 1..<n_bins self] (False, mx, after_low am df)))"
  have r: "after_high am self df = r" by (simp add: after_high_def r_def M_def mx_def)
  have "n_bins self \<le> length (after_low am df)" using len by simp
  note high = high_sweep[OF this, of "M + 1" False mx, folded r_def]
  have hr: "high_repaired df i \<longleftrightarrow>
              M + 1 \<le> i \<and> (\<exists>j. M + 1 \<le> j \<and> j \<le> i \<and> bad_hits (after_low am df ! j) = Some 0)"
  proof -
    have "bad_hits (after_low am df ! j) = bad_hits (df ! j)" if "j \<le> i" for j
      using that i by (intro after_low_bad_hits) simp
    then have "(\<exists>j. M + 1 \<le> j \<and> j \<le> i \<and> bad_hits (after_low am df ! j) = Some 0)
          \<longleftrightarrow> (\<exists>j. M + 1 \<le> j \<and> j \<le> i \<and> bad_hits (df ! j) = Some 0)"
      by metis
    then show ?thesis by (auto simp: high_repaired_def M_def)
  qed
  show "after_high am self df ! i = after_low am df ! i" if "\<not> high_repaired df i"
  proof (cases "M + 1 \<le> i")
    case True
    then show ?thesis unfolding r using high that hr i len by auto
  next
    case False
    then show ?thesis unfolding r using high by simp
  qed
  show "0 < adjusted_odds (after_high am self df ! i)"
    if "high_repaired df i" "0 < Max (set (raw_col df))"
    unfolding r using high that hr i len unfolding mx_def by auto
qed

section \<open>Frames built from binary labels\<close>

lemma binary_sum_bounds:
  assumes "\<forall>l\<in>set g. l = 0 \<or> l = (1::int)"
  shows "0 \<le> sum_list g" and "sum_list g \<le> int (length g)"
  using assms by (induction g) auto

lemma col_div_nonneg:
  assumes "0 \<le> g" and "0 \<le> b"
  shows "0 \<le> fill0 (col_div (Some g) (Some b))"
  using assms by (simp add: fill0_def)

text \<open>
  With labels 0 and 1 the counts of good and bad hits are non-negative, so the raw
  odds of every bin are non-negative where they are finite.
\<close>

lemma count_bins_odds_nonneg:
  assumes "\<forall>l\<in>set ys. l = 0 \<or> l = 1" and "b \<in> set (count_bins self xs ys)"
  shows "0 \<le> fill0 (odds b)"
proof -
  obtain i where b: "b = count_row self (sample_bins self xs) ys i"
    using assms(2) by (auto simp: count_bins_def)
  define g where "g = group (sample_bins self xs) ys (int i)"
  have "set g \<subseteq> set ys"
    unfolding g_def group_def by (auto dest: set_zip_rightD)
  then have bin: "\<forall>l\<in>set g. l = 0 \<or> l = 1" using assms(1) by blast
  show ?thesis
  proof (cases "g = []")
    case True
    then show ?thesis
      unfolding b count_row_def group_count_def group_sum_def Let_def g_def[symmetric]
      by (simp add: fill0_def)
  next
    case False
    have s: "0 \<le> sum_list g" "0 \<le> int (length g) - sum_list g"
      using binary_sum_bounds[OF bin] by simp_all
    show ?thesis
      unfolding b count_row_def group_count_def group_sum_def Let_def g_def[symmetric]
      using False s by (cases "bad_flag self") (simp_all add: col_div_nonneg del: col_div.simps)
  qed
qed

section \<open>What the repair keeps and what it guarantees\<close>

lemma adjust_odds_nonzero:
  assumes "adjust_odds am self df = Inr df'"
  shows "filter (\<lambda>v. v \<noteq> 0) (raw_col df) \<noteq> []"
  using adjust_odds_Inr(2)[OF assms] by (simp add: raw_col_def)

lemma not_degenerate_Num:
  assumes "\<not> degenerate v"
  obtains r where "v = Num r" and "r \<noteq> 0" and "fill0 v = r"
  using assms by (cases v) (auto simp: degenerate_def fill0_def)

text \<open>
  Claim C10. \<open>__adjust_odds\<close> writes no column but \<open>adjusted_odds\<close>, and a bin whose
  \<open>adjusted_odds\<close> differs from its raw odds has degenerate raw odds, or lies below
  \<open>min_odds_index\<close> at or below a bin without good hits, or lies above
  \<open>max_odds_index\<close> at or above a bin without bad hits. In particular a bin between
  the index \<open>L\<close> of the minimum nonzero odds and the index \<open>M\<close> of the maximum, with
  finite nonzero raw odds, keeps them.
\<close>

theorem adjust_odds_frame:
  assumes "adjust_odds am self df = Inr df'" and "length df = n_bins self" and "i < length df"
  shows "(df' ! i)\<lparr>adjusted_odds := 0\<rparr> = (df ! i)\<lparr>adjusted_odds := 0\<rparr>
       \<and> (adjusted_odds (df' ! i) \<noteq> fill0 (odds (df ! i)) \<longrightarrow>
            degenerate (odds (df ! i)) \<or> low_repaired am df i \<or> high_repaired df i)
       \<and> (\<not> degenerate (odds (df ! i)) \<and> low_index AsLabel df \<le> i \<and> i \<le> high_index df \<longrightarrow>
            (\<exists>v. odds (df ! i) = Num v \<and> v \<noteq> 0 \<and> adjusted_odds (df' ! i) = v))"
proof -
  have nz: "filter (\<lambda>v. v \<noteq> 0) (raw_col df) \<noteq> []"
    using assms(1) by (rule adjust_odds_nonzero)
  have d: "df' = fold mid_step [low_index am df + 1..<high_index df - 1] (after_high am self df)"
    using adjust_odds_eq[OF nz, of am self] assms(1) by simp
  have same: "(df' ! i)\<lparr>adjusted_odds := 0\<rparr> = (df ! i)\<lparr>adjusted_odds := 0\<rparr>"
    using same_counts(3)[OF adjust_odds_erase[OF assms(1), of 0] assms(3)] .
  have kept: "adjusted_odds (df' ! i) = fill0 (odds (df ! i))"
    if "\<not> degenerate (odds (df ! i))" "\<not> low_repaired am df i" "\<not> high_repaired df i"
  proof -
    have "after_high am self df ! i = after_low am df ! i"
      using assms(2,3) that(3) by (rule after_high_rows(1))
    also have "\<dots> = after_fill df ! i"
      using nz that(2) by (rule after_low_rows(1))
    also have "\<dots> = (df ! i)\<lparr>adjusted_odds := fill0 (odds (df ! i))\<rparr>"
      using assms(3) by (rule after_fill_nth)
    finally have r: "after_high am self df ! i =
                       (df ! i)\<lparr>adjusted_odds := fill0 (odds (df ! i))\<rparr>" .
    then have "adjusted_odds (after_high am self df ! i) \<noteq> 0"
      using that(1) by (simp add: degenerate_def)
    then have "df' ! i = after_high am self df ! i"
      unfolding d by (rule fold_mid_keeps_nonzero)
    then show ?thesis using r by simp
  qed
  have between: "\<exists>v. odds (df ! i) = Num v \<and> v \<noteq> 0 \<and> adjusted_odds (df' ! i) = v"
    if nd: "\<not> degenerate (odds (df ! i))" and lo: "low_index AsLabel df \<le> i"
      and hi: "i \<le> high_index df"
  proof -
    have "low_index am df \<le> low_index AsLabel df"
      using min_odds_index_le_label[OF nz] by (simp add: low_index_def)
    then have "\<not> low_repaired am df i" using lo by (simp add: low_repaired_def)
    moreover have "\<not> high_repaired df i" using hi by (simp add: high_repaired_def)
    ultimately have k: "adjusted_odds (df' ! i) = fill0 (odds (df ! i))"
      using kept nd by blast
    obtain r where "odds (df ! i) = Num r" "r \<noteq> 0" "fill0 (odds (df ! i)) = r"
      using nd by (rule not_degenerate_Num)
    then show ?thesis using k by simp
  qed
  show ?thesis using same kept between by blast
qed

text \<open>
  Claim C1, as the code has it. On a frame of \<open>n_bins\<close> bins whose raw odds are
  non-negative where finite (every frame built from labels 0 and 1 is such a frame,
  by \<open>count_bins_odds_nonneg\<close>), one of them finite and nonzero, \<open>__adjust_odds\<close> returns
  a frame whose \<open>adjusted_odds\<close> are all finite and non-negative, and strictly positive
  for every bin with finite nonzero raw odds, every bin reached by the low-end or the
  high-end repair, and every bin of \<open>range(min_odds_index + 1, max_odds_index - 1)\<close>
  when the bin at \<open>min_odds_index\<close> has nonzero odds (as it has when \<open>argmin\<close>
  returns the label).
\<close>

theorem adjust_odds_positive:
  assumes "length df = n_bins self"
    and "\<forall>b\<in>set df. 0 \<le> fill0 (odds b)"
    and "\<exists>b\<in>set df. \<not> degenerate (odds b)"
  shows "\<exists>df'. adjust_odds am self df = Inr df' \<and> length df' = length df
     \<and> (\<forall>i<length df. 0 \<le> adjusted_odds (df' ! i)
          \<and> (\<not> degenerate (odds (df ! i)) \<or> low_repaired am df i \<or> high_repaired df i
              \<or> (mid_range am df i \<and> \<not> degenerate (odds (df ! low_index am df)))
             \<longrightarrow> 0 < adjusted_odds (df' ! i)))
     \<and> (am = AsLabel \<longrightarrow> \<not> degenerate (odds (df ! low_index am df)))"
proof -
  define L where "L = low_index am df"
  define M where "M = high_index df"
  define dfc where "dfc = after_high am self df"
  define df' where "df' = fold mid_step [L + 1..<M - 1] dfc"
  have nn: "\<forall>v\<in>set (raw_col df). 0 \<le> v" using assms(2) by (simp add: raw_col_def)
  have nz: "filter (\<lambda>v. v \<noteq> 0) (raw_col df) \<noteq> []"
    using assms(3) by (auto simp: raw_col_def degenerate_def filter_empty_conv)
  have mn: "0 < Min (set (filter (\<lambda>v. v \<noteq> 0) (raw_col df)))"
    and mx: "0 < Max (set (raw_col df))"
    using min_max_positive[OF nz nn] by simp_all
  have Ll: "L < length df" unfolding L_def using nz by (rule low_index_less)
  have Ml: "M < length df" unfolding M_def using nz by (rule high_index_less)
  have eq: "adjust_odds am self df = Inr df'"
    unfolding df'_def dfc_def L_def M_def using nz by (rule adjust_odds_eq)
  have lc: "length dfc = length df" by (simp add: dfc_def)
  have l': "length df' = length df" by (simp add: df'_def fold_mid_length lc)
  have raw: "adjusted_odds (after_fill df ! i) = fill0 (odds (df ! i))" if "i < length df" for i
    using that by (simp add: after_fill_nth)
  have a0: "0 \<le> adjusted_odds (after_fill df ! i)" if "i < length df" for i
    using raw[OF that] assms(2) that by simp
  have b0: "0 \<le> adjusted_odds (after_low am df ! i)" if "i < length df" for i
    using after_low_rows[OF nz, of am i] mn a0[OF that]
    by (cases "low_repaired am df i") auto
  have c0: "0 \<le> adjusted_odds (dfc ! i)" if "i < length df" for i
    using after_high_rows[OF assms(1) that, of am] mx b0[OF that] unfolding dfc_def
    by (cases "high_repaired df i") auto
  have bk: "0 < adjusted_odds (after_low am df ! i)"
    if "0 < adjusted_odds (after_fill df ! i)" for i
    using after_low_rows[OF nz, of am i] mn that
    by (cases "low_repaired am df i") auto
  have ck: "0 < adjusted_odds (dfc ! i)"
    if "i < length df" "0 < adjusted_odds (after_low am df ! i)" for i
    using after_high_rows[OF assms(1) that(1), of am] mx that(2) unfolding dfc_def
    by (cases "high_repaired df i") auto
  have dk: "0 < adjusted_odds (df' ! i)" if "0 < adjusted_odds (dfc ! i)" for i
  proof -
    have "adjusted_odds (dfc ! i) \<noteq> 0" using that by simp
    then have "df' ! i = dfc ! i" unfolding df'_def by (rule fold_mid_keeps_nonzero)
    then show ?thesis using that by simp
  qed
  have d0: "\<forall>i<length dfc. 0 \<le> adjusted_odds (df' ! i)"
    unfolding df'_def
  proof (rule fold_mid_nonneg)
    show "\<forall>i<length dfc. 0 \<le> adjusted_odds (dfc ! i)" using c0 lc by simp
    show "\<forall>j\<in>set [L + 1..<M - 1]. 0 < j \<and> j + 1 < length dfc" using Ml lc by auto
  qed
  have nondeg: "0 < adjusted_odds (dfc ! i)"
    if "i < length df" "\<not> degenerate (odds (df ! i))" for i
  proof -
    have "fill0 (odds (df ! i)) \<noteq> 0" using that(2) by (simp add: degenerate_def)
    moreover have "0 \<le> fill0 (odds (df ! i))" using assms(2) that(1) by simp
    ultimately have "0 < adjusted_odds (after_fill df ! i)" using raw[OF that(1)] by simp
    then show ?thesis using bk ck that(1) by blast
  qed
  have mid: "0 < adjusted_odds (df' ! i)"
    if "mid_range am df i" "\<not> degenerate (odds (df ! L))" for i
  proof -
    have i: "L + 1 \<le> i \<and> i < M - 1" using that(1) by (auto simp: mid_range_def L_def M_def)
    have "\<forall>i. L + 1 \<le> i \<and> i < M - 1 \<longrightarrow> 0 < adjusted_odds (fold mid_step [L + 1..<M - 1] dfc ! i)"
    proof (rule mid_sweep_pos)
      show "0 < L + 1" by simp
      show "M - 1 < length dfc" using Ml lc by simp
      show "\<forall>i<length dfc. 0 \<le> adjusted_odds (dfc ! i)" using c0 lc by simp
      show "0 < adjusted_odds (dfc ! (L + 1 - 1))" using nondeg[OF Ll that(2)] by simp
    qed
    then show ?thesis using i unfolding df'_def by blast
  qed
  have rows: "0 \<le> adjusted_odds (df' ! i)
          \<and> (\<not> degenerate (odds (df ! i)) \<or> low_repaired am df i \<or> high_repaired df i
              \<or> (mid_range am df i \<and> \<not> degenerate (odds (df ! low_index am df)))
             \<longrightarrow> 0 < adjusted_odds (df' ! i))" if i: "i < length df" for i
  proof -
    have p1: "0 < adjusted_odds (df' ! i)" if "\<not> degenerate (odds (df ! i))"
      using dk nondeg[OF i that] by blast
    have "0 < adjusted_odds (after_low am df ! i)" if "low_repaired am df i"
      using after_low_rows(2)[OF nz that mn] .
    then have p2: "0 < adjusted_odds (df' ! i)" if "low_repaired am df i"
      using dk ck[OF i] that by blast
    have "0 < adjusted_odds (dfc ! i)" if "high_repaired df i"
      unfolding dfc_def using after_high_rows(2)[OF assms(1) i that mx] .
    then have p3: "0 < adjusted_odds (df' ! i)" if "high_repaired df i"
      using dk that by blast
    have p4: "0 < adjusted_odds (df' ! i)"
      if "mid_range am df i \<and> \<not> degenerate (odds (df ! low_index am df))"
      using mid that unfolding L_def by blast
    have p0: "0 \<le> adjusted_odds (df' ! i)" using d0 i lc by simp
    show ?thesis using p0 p1 p2 p3 p4 by blast
  qed
  have label: "\<not> degenerate (odds (df ! low_index am df))" if "am = AsLabel"
  proof -
    have "raw_col df ! min_odds_index AsLabel (raw_col df) \<noteq> 0"
      using nz by (rule min_odds_label_nonzero)
    moreover have "raw_col df ! L = fill0 (odds (df ! L))"
      using Ll by (simp add: raw_col_def)
    ultimately show ?thesis using that by (simp add: L_def low_index_def degenerate_def)
  qed
  show ?thesis using eq l' rows label by blast
qed

section \<open>The repair on examples\<close>

lemma repair_frame_odds:
  "map odds repair_frame = [Num 0, Num 1, Num 0, Num 2, Num 4, PInf]"
  by (simp add: repair_frame_def counted_def)

lemma repair_frame_indices:
  "low_index AsLabel repair_frame = 1" "high_index repair_frame = 4"
  "low_index AsPosition repair_frame = 0"
  by (simp_all add: low_index_def high_index_def raw_col_def repair_frame_odds[simplified]
      repair_frame_def counted_def fill0_def min_odds_index_def argmax_def argmin_def)

lemma repair_frame_adjust:
  "adjust_odds AsLabel (default_card 6 False) repair_frame =
     Inr (with_adjusted repair_frame [1 / 2, 1, 3 / 2, 2, 4, 8])"
  by (simp add: adjust_odds_def repair_frame_def counted_def fill0_def min_odds_index_def
      argmax_def argmin_def default_card_def with_adjusted_def low_step_def high_step_def
      mid_step_def set_adjusted_def Let_def upt_rec)

lemma score_of_default_0: "score_of (default_card n bf) 0 = Inl MathDomainError"
  by (simp add: score_of_def default_card_def)

lemma stray_count:
  "count_bins (default_card 3 False) (data stray_x) (data stray_y) =
     [counted 1 1, counted 2 1, counted 0 1]"
  by (simp add: count_bins_def count_row_def sample_bins_def step_def py_int_def
      group_count_def group_sum_def group_def upt_rec Let_def default_card_def
      stray_x_def stray_y_def counted_def)

lemma stray_adjust:
  "adjust_odds am (default_card 3 False) [counted 1 1, counted 2 1, counted 0 1] =
     Inr (with_adjusted [counted 1 1, counted 2 1, counted 0 1] [1, 2, 0])"
  by (cases am)
     (simp_all add: adjust_odds_def counted_def fill0_def min_odds_index_def
        argmax_def argmin_def default_card_def with_adjusted_def low_step_def high_step_def
        mid_step_def set_adjusted_def Let_def upt_rec)

lemma gap_count:
  "count_bins (default_card 3 False) (data gap_x) (data gap_y) =
     [counted 1 1, counted 0 1, counted 2 1]"
  by (simp add: count_bins_def count_row_def sample_bins_def step_def py_int_def
      group_count_def group_sum_def group_def upt_rec Let_def default_card_def
      gap_x_def gap_y_def counted_def)

lemma gap_adjust:
  "adjust_odds am (default_card 3 False) [counted 1 1, counted 0 1, counted 2 1] =
     Inr (with_adjusted [counted 1 1, counted 0 1, counted 2 1] [1, 0, 2])"
  by (cases am)
     (simp_all add: adjust_odds_def counted_def fill0_def min_odds_index_def
        argmax_def argmin_def default_card_def with_adjusted_def low_step_def high_step_def
        mid_step_def set_adjusted_def Let_def upt_rec)

lemma fit_with_zero_odds:
  assumes "ndim x = 1" and "ndim y = 1" and "shape x \<noteq> []" and "shape y \<noteq> []"
    and "hd (shape x) = hd (shape y)" and "length (data x) = length (data y)"
    and "adjust_odds am (default_card 3 False)
           (count_bins (default_card 3 False) (data x) (data y)) = Inr (with_adjusted df vs)"
    and "length df = 3" and "length vs = 3" and "set vs = {0, 1, 2}"
  shows "fit am (default_card 3 False) x y = Inl MathDomainError"
proof -
  have b: "\<not> bad_flag (default_card 3 False)" by (simp add: default_card_def)
  have l: "length (with_adjusted df vs) = 3" using assms(8,9) by (simp add: with_adjusted_def)
  have col: "map adjusted_odds (order_bins (default_card 3 False) (with_adjusted df vs)) = vs"
  proof (rule nth_equalityI)
    show "length (map adjusted_odds (order_bins (default_card 3 False) (with_adjusted df vs)))
            = length vs"
      using l assms(9) by simp
  next
    fix i
    assume "i < length (map adjusted_odds (order_bins (default_card 3 False) (with_adjusted df vs)))"
    then have i: "i < 3" using l by simp
    then show "map adjusted_odds (order_bins (default_card 3 False) (with_adjusted df vs)) ! i
                 = vs ! i"
      using b assms(8,9) l
      by (simp add: order_bins_def set_probs_nth with_adjusted_def)
  qed
  have "map (\<lambda>b. score_of (default_card 3 False) (adjusted_odds b))
          (order_bins (default_card 3 False) (with_adjusted df vs))
        = map (score_of (default_card 3 False)) vs"
  proof -
    have "map (\<lambda>b. score_of (default_card 3 False) (adjusted_odds b))
            (order_bins (default_card 3 False) (with_adjusted df vs))
          = map (score_of (default_card 3 False))
              (map adjusted_odds (order_bins (default_card 3 False) (with_adjusted df vs)))"
      by (simp add: comp_def)
    then show ?thesis by (simp only: col)
  qed
  moreover have "collect (map (score_of (default_card 3 False)) vs) = Inl MathDomainError"
  proof (rule collect_Inl[of vs _ "\<lambda>v. if v = 1 then 632 else 652"])
    fix a assume "a \<in> set vs"
    then have "a = 0 \<or> a = 1 \<or> a = 2" using assms(10) by auto
    then show "score_of (default_card 3 False) a = Inr (if a = 1 then 632 else 652)
               \<or> score_of (default_card 3 False) a = Inl MathDomainError"
      using score_of_default_0 score_of_default_1 score_of_default_2 by auto
  next
    have "0 \<in> set vs" using assms(10) by simp
    then show "\<exists>a\<in>set vs. score_of (default_card 3 False) a = Inl MathDomainError"
      using score_of_default_0 by blast
  qed
  ultimately have "score_bins (default_card 3 False)
                     (order_bins (default_card 3 False) (with_adjusted df vs))
                   = Inl MathDomainError"
    by (simp add: score_bins_def)
  then show ?thesis
    using assms(1-7) by (simp add: fit_def calc_bins_def is_one_dim_array_def)
qed

text \<open>
  The claim C1 as stated fails: the last bin of this sample has no good hit and one
  bad hit, so its odds are 0, it lies above the bin of maximal odds, and the gate of
  the high-end loop (\<open>bad_hits == 0\<close>) does not open for it. Its adjusted odds stay
  0, and \<open>fit\<close> ends in the domain error of \<open>log2\<close>.
\<close>

theorem adjust_odds_leaves_zero:
  "count_bins (default_card 3 False) (data stray_x) (data stray_y) =
     [counted 1 1, counted 2 1, counted 0 1]
   \<and> map odds [counted 1 1, counted 2 1, counted 0 1] = [Num 1, Num 2, Num 0]
   \<and> adjust_odds AsLabel (default_card 3 False) [counted 1 1, counted 2 1, counted 0 1] =
       Inr (with_adjusted [counted 1 1, counted 2 1, counted 0 1] [1, 2, 0])
   \<and> adjust_odds AsPosition (default_card 3 False) [counted 1 1, counted 2 1, counted 0 1] =
       Inr (with_adjusted [counted 1 1, counted 2 1, counted 0 1] [1, 2, 0])
   \<and> adjusted_odds (with_adjusted [counted 1 1, counted 2 1, counted 0 1] [1, 2, 0] ! 2) = 0
   \<and> fit AsLabel (default_card 3 False) stray_x stray_y = Inl MathDomainError"
proof -
  have "fit AsLabel (default_card 3 False) stray_x stray_y = Inl MathDomainError"
  proof (rule fit_with_zero_odds)
    show "adjust_odds AsLabel (default_card 3 False)
           (count_bins (default_card 3 False) (data stray_x) (data stray_y)) =
          Inr (with_adjusted [counted 1 1, counted 2 1, counted 0 1] [1, 2, 0])"
      unfolding stray_count by (rule stray_adjust)
  qed (auto simp: ndim_def stray_x_def stray_y_def)
  then show ?thesis
    by (simp add: stray_count stray_adjust) (simp add: counted_def with_adjusted_def)
qed

text \<open>
  Claim C2 at the bin just below the maximum. With odds 1, 0, 2 the indices are
  \<open>L = 0\<close> and \<open>M = 2\<close>, bin 1 lies strictly between them with adjusted odds 0 and a
  nonzero neighbour above, and \<open>range(L + 1, M - 1)\<close> is empty: bin 1 keeps 0 where
  the average \<open>3/2\<close> is claimed, and \<open>fit\<close> ends in the domain error of \<open>log2\<close>. With
  odds 1, 0, 0, 4 the loop reaches bin 1 (which takes the value 1 of bin 0) and
  stops before bin 2.
\<close>

theorem interior_repair_skips_last:
  "count_bins (default_card 3 False) (data gap_x) (data gap_y) =
     [counted 1 1, counted 0 1, counted 2 1]
   \<and> low_index am [counted 1 1, counted 0 1, counted 2 1] = 0
   \<and> high_index [counted 1 1, counted 0 1, counted 2 1] = 2
   \<and> adjust_odds am (default_card 3 False) [counted 1 1, counted 0 1, counted 2 1] =
       Inr (with_adjusted [counted 1 1, counted 0 1, counted 2 1] [1, 0, 2])
   \<and> fit am (default_card 3 False) gap_x gap_y = Inl MathDomainError
   \<and> adjust_odds am (default_card 4 False) [counted 1 1, counted 0 1, counted 0 1, counted 4 1] =
       Inr (with_adjusted [counted 1 1, counted 0 1, counted 0 1, counted 4 1] [1, 1, 0, 4])"
proof -
  have f: "fit am (default_card 3 False) gap_x gap_y = Inl MathDomainError"
  proof (rule fit_with_zero_odds)
    show "adjust_odds am (default_card 3 False)
           (count_bins (default_card 3 False) (data gap_x) (data gap_y)) =
          Inr (with_adjusted [counted 1 1, counted 0 1, counted 2 1] [1, 0, 2])"
      unfolding gap_count by (rule gap_adjust)
  qed (auto simp: ndim_def gap_x_def gap_y_def)
  have i: "low_index am [counted 1 1, counted 0 1, counted 2 1] = 0"
    "high_index [counted 1 1, counted 0 1, counted 2 1] = 2"
    by (cases am; simp add: low_index_def high_index_def raw_col_def counted_def fill0_def
        min_odds_index_def argmax_def argmin_def)+
  have g: "adjust_odds am (default_card 4 False)
             [counted 1 1, counted 0 1, counted 0 1, counted 4 1] =
           Inr (with_adjusted [counted 1 1, counted 0 1, counted 0 1, counted 4 1] [1, 1, 0, 4])"
    by (cases am)
       (simp_all add: adjust_odds_def counted_def fill0_def min_odds_index_def
          argmax_def argmin_def default_card_def with_adjusted_def low_step_def high_step_def
          mid_step_def set_adjusted_def Let_def upt_rec)
  show ?thesis using f i g by (simp add: gap_count gap_adjust)
qed

lemma repair_frame_reached:
  "low_repaired AsLabel repair_frame 0" "mid_range AsLabel repair_frame 2"
  "high_repaired repair_frame 5"
proof -
  have "good_hits (repair_frame ! 0) = Some 0" "bad_hits (repair_frame ! 5) = Some 0"
    by (simp_all add: repair_frame_def counted_def)
  then show "low_repaired AsLabel repair_frame 0" "high_repaired repair_frame 5"
    unfolding low_repaired_def high_repaired_def repair_frame_indices by auto
  show "mid_range AsLabel repair_frame 2"
    unfolding mid_range_def repair_frame_indices by simp
qed

theorem adjust_odds_positive_witness:
  "length repair_frame = n_bins (default_card 6 False)
   \<and> raw_col repair_frame = [0, 1, 0, 2, 4, 0]
   \<and> adjust_odds AsLabel (default_card 6 False) repair_frame =
       Inr (with_adjusted repair_frame [1 / 2, 1, 3 / 2, 2, 4, 8])
   \<and> low_repaired AsLabel repair_frame 0
   \<and> mid_range AsLabel repair_frame 2
   \<and> high_repaired repair_frame 5
   \<and> 0 < adjusted_odds (with_adjusted repair_frame [1 / 2, 1, 3 / 2, 2, 4, 8] ! 0)
   \<and> 0 < adjusted_odds (with_adjusted repair_frame [1 / 2, 1, 3 / 2, 2, 4, 8] ! 2)
   \<and> 0 < adjusted_odds (with_adjusted repair_frame [1 / 2, 1, 3 / 2, 2, 4, 8] ! 5)"
proof -
  have l: "length repair_frame = n_bins (default_card 6 False)"
    by (simp add: repair_frame_def default_card_def)
  have r: "raw_col repair_frame = [0, 1, 0, 2, 4, 0]"
    by (simp add: raw_col_def repair_frame_def counted_def fill0_def)
  have nn: "\<forall>b\<in>set repair_frame. 0 \<le> fill0 (odds b)"
    by (simp add: repair_frame_def counted_def fill0_def)
  have nd: "\<exists>b\<in>set repair_frame. \<not> degenerate (odds b)"
    by (simp add: repair_frame_def counted_def degenerate_def fill0_def)
  have six: "(0::nat) < length repair_frame" "(2::nat) < length repair_frame"
    "(5::nat) < length repair_frame"
    by (simp_all add: repair_frame_def)
  obtain df' where a: "adjust_odds AsLabel (default_card 6 False) repair_frame = Inr df'"
    and p: "\<forall>i<length repair_frame. 0 \<le> adjusted_odds (df' ! i)
          \<and> (\<not> degenerate (odds (repair_frame ! i)) \<or> low_repaired AsLabel repair_frame i
              \<or> high_repaired repair_frame i
              \<or> (mid_range AsLabel repair_frame i
                  \<and> \<not> degenerate (odds (repair_frame ! low_index AsLabel repair_frame)))
             \<longrightarrow> 0 < adjusted_odds (df' ! i))"
    and lb: "\<not> degenerate (odds (repair_frame ! low_index AsLabel repair_frame))"
    using adjust_odds_positive[OF l nn nd, of AsLabel] by blast
  have e: "df' = with_adjusted repair_frame [1 / 2, 1, 3 / 2, 2, 4, 8]"
    using a repair_frame_adjust by simp
  have "0 < adjusted_odds (df' ! 0)" "0 < adjusted_odds (df' ! 2)" "0 < adjusted_odds (df' ! 5)"
    using p six repair_frame_reached lb by blast+
  then show ?thesis
    unfolding e using l r repair_frame_adjust repair_frame_reached by simp
qed

theorem adjust_odds_frame_witness:
  "adjust_odds AsLabel (default_card 6 False) repair_frame =
       Inr (with_adjusted repair_frame [1 / 2, 1, 3 / 2, 2, 4, 8])
   \<and> length repair_frame = n_bins (default_card 6 False)
   \<and> low_index AsLabel repair_frame = 1
   \<and> high_index repair_frame = 4
   \<and> odds (repair_frame ! 3) = Num 2
   \<and> adjusted_odds (with_adjusted repair_frame [1 / 2, 1, 3 / 2, 2, 4, 8] ! 3) = 2
   \<and> good_hits (with_adjusted repair_frame [1 / 2, 1, 3 / 2, 2, 4, 8] ! 3) = Some 2"
proof -
  have l: "length repair_frame = n_bins (default_card 6 False)"
    by (simp add: repair_frame_def default_card_def)
  have i: "(3::nat) < length repair_frame" by (simp add: repair_frame_def)
  have o: "odds (repair_frame ! 3) = Num 2" by (simp add: repair_frame_def counted_def)
  have nd: "\<not> degenerate (odds (repair_frame ! 3))"
    unfolding o by (simp add: degenerate_def fill0_def)
  have c: "\<exists>v. odds (repair_frame ! 3) = Num v \<and> v \<noteq> 0
             \<and> adjusted_odds (with_adjusted repair_frame [1 / 2, 1, 3 / 2, 2, 4, 8] ! 3) = v"
    and s: "(with_adjusted repair_frame [1 / 2, 1, 3 / 2, 2, 4, 8] ! 3)\<lparr>adjusted_odds := 0\<rparr>
             = (repair_frame ! 3)\<lparr>adjusted_odds := 0\<rparr>"
    using adjust_odds_frame[OF repair_frame_adjust l i] nd repair_frame_indices by simp_all
  have "adjusted_odds (with_adjusted repair_frame [1 / 2, 1, 3 / 2, 2, 4, 8] ! 3) = 2"
    using c o by simp
  moreover have "good_hits ((with_adjusted repair_frame [1 / 2, 1, 3 / 2, 2, 4, 8] ! 3)
                   \<lparr>adjusted_odds := 0\<rparr>) = Some 2"
    unfolding s by (simp add: repair_frame_def counted_def)
  ultimately show ?thesis
    using repair_frame_adjust l repair_frame_indices o by simp
qed

section \<open>The anchors of the mapping table\<close>

text \<open>
  The bins of a fitted model have their mean probability \<open>(i + 1/2) * step\<close>, in the
  middle of the \<open>i\<close>-th interval and strictly between 0 and 1: the probabilities of
  the anchors of \<open>__calc_mapping_df\<close> increase strictly.
\<close>

lemma fit_mean_prob:
  assumes "fit am self x y = Inr m" and "binning_df m = Some bdf" and "i < n_bins self"
  shows "mean_prob (bdf ! i) = (real i + 1 / 2) * step self"
    and "0 < mean_prob (bdf ! i)" and "mean_prob (bdf ! i) < 1"
proof -
  have pos: "0 < n_bins self" using assms(3) by simp
  obtain bdf' where c: "calc_bins am self x y = Inr bdf'"
    and m: "m = self\<lparr>binning_df := Some bdf', mapping_df := Some (calc_mapping_df self bdf')\<rparr>"
    using assms(1) by (rule fit_Inr)
  have e: "bdf' = bdf" using m assms(2) by simp
  obtain df where a: "adjust_odds am self (count_bins self (data x) (data y)) = Inr df"
    and s: "score_bins self (order_bins self df) = Inr bdf"
    using c unfolding e by (rule calc_bins_Inr)
  have l: "length df = n_bins self" using adjust_odds_length[OF a] by simp
  obtain sc where r: "bdf ! i = (order_bins self df ! i)\<lparr>score := sc,
              mean_prob := (prob_l (order_bins self df ! i) + prob_r (order_bins self df ! i)) / 2\<rparr>"
    using score_bins_nth[OF s, of i] assms(3) l by auto
  have o: "order_bins self df ! i =
           (df ! (if bad_flag self then length df - 1 - i else i))
             \<lparr>prob_l := real i * step self, prob_r := real i * step self + step self\<rparr>"
    using order_bins_nth[OF pos, of i df] assms(3) l by simp
  show v: "mean_prob (bdf ! i) = (real i + 1 / 2) * step self"
    unfolding r o by (simp add: algebra_simps)
  have st: "step self = 1 / real (n_bins self)" by (simp add: step_def)
  show "0 < mean_prob (bdf ! i)" unfolding v st using pos by simp
  have "real i + 1 / 2 < real (n_bins self)" using assms(3) by linarith
  then show "mean_prob (bdf ! i) < 1" unfolding v st using pos by (simp add: field_simps)
qed

end
